theory Spec2Isabelle
  imports Main "HOL-Library.AList" "HOL-Library.Char_ord" "HOL-Library.List_Lexorder"
    "HOL-Library.Product_Lexorder"
begin

section \<open>Minimal Version Selection: the data model of \<open>mvs.go\<close>\<close>

text \<open>
  \<open>module.Version\<close> is a struct of two strings. Go compares strings bytewise and
  lexicographically, which is the order of \<open>char list\<close> given by \<open>Char_ord\<close> and
  \<open>List_Lexorder\<close>.
\<close>

record module_version =
  Path :: string
  Version :: string

text \<open>
  The interface \<open>Reqs\<close>. A provider is taken to be a pure function of its argument:
  asking twice gives the same answer. The type \<open>'e\<close> is the provider's own error type.
\<close>

record 'e Reqs =
  Reqs_Required :: "module_version \<Rightarrow> 'e + module_version list"
  Reqs_Max :: "string \<Rightarrow> string \<Rightarrow> string"
  Reqs_Upgrade :: "module_version \<Rightarrow> 'e + module_version"
  Reqs_Previous :: "module_version \<Rightarrow> 'e + module_version"

text \<open>The local struct \<open>modGraphNode\<close> of \<open>buildList\<close>.\<close>

record 'e modGraphNode =
  node_m :: module_version
  node_required :: "module_version list"
  node_upgrade :: module_version
  node_err :: "'e option"

text \<open>
  The variables shared by the workers of \<open>buildList\<close>: \<open>modGraph\<close>, \<open>min\<close> and
  \<open>haveErr\<close>. The Go map \<open>min\<close> is an association list with distinct keys, in the
  order in which the keys were inserted, so that the final \<open>range min\<close> has an order to
  follow (Go leaves that order open).
\<close>

record 'e graph_state =
  modGraph :: "module_version \<rightharpoonup> 'e modGraphNode"
  min_map :: "(string \<times> string) list"
  haveErr :: bool

text \<open>
  What a Go \<open>error\<close> returned by this package can be: an error of the provider, passed
  on as it is, or a \<open>*BuildListError\<close>.

  Modelled from the spec: \<open>NewBuildListError\<close> (file \<open>errors.go\<close> is not part of the
  sources at hand). The spec says the typed error carries the inner error, \<open>errPath\<close>
  (root first, failing vertex last) and the predicate \<open>isUpgrade(from, to)\<close>.
\<close>

datatype 'e go_error =
  ProviderError 'e
| BuildListError 'e "module_version list" "module_version \<Rightarrow> module_version \<Rightarrow> bool"

definition NewBuildListError ::
  "'e \<Rightarrow> module_version list \<Rightarrow> (module_version \<Rightarrow> module_version \<Rightarrow> bool) \<Rightarrow> 'e go_error" where
  "NewBuildListError err errPath isUpgrade = BuildListError err errPath isUpgrade"

text \<open>
  The ways a call can abort instead of returning: the two \<open>panic("mistake: ...")\<close> of the
  finalizer with the values they print, and the dereference of a nil \<open>*modGraphNode\<close>.
\<close>

datatype mistake =
  ChoseVersion string module_version
| NotSatisfied string module_version
| NilDereference

datatype ('a, 'e) outcome =
  Return 'a
| Fail "'e go_error"
| Panic mistake

definition none :: string where
  "none = ''none''"

definition zero_version :: module_version where
  "zero_version = \<lparr>Path = [], Version = []\<rparr>"

text \<open>Reading a Go \<open>map[string]string\<close>: a missing key reads as the empty string.\<close>

definition lookup_str :: "(string \<times> string) list \<Rightarrow> string \<Rightarrow> string" where
  "lookup_str al k = (case map_of al k of None \<Rightarrow> [] | Some v \<Rightarrow> v)"

section \<open>The work queue\<close>

text \<open>
  Modelled from the spec: \<open>par.Work\<close> (package \<open>par\<close> is not part of the sources at
  hand). \<open>add(item)\<close> enqueues an item and ignores an item added before; \<open>run\<close> takes
  items and applies the function to each, until no item is left. Which item a worker takes
  next is left open by the spec, so the model takes a scheduler \<open>pick\<close>, which chooses
  an index into the items still to do. A worker of \<open>buildList\<close> touches the shared
  variables in one critical section at the start of its item and afterwards only its own
  node, so running the items one after the other, in the order in which the workers enter
  that critical section, reaches the same final state; every such order is the order of
  some scheduler.
\<close>

record 'a Work =
  work_added :: "'a set"
  work_todo :: "'a list"

definition Work_init :: "'a Work" where
  "Work_init = \<lparr>work_added = {}, work_todo = []\<rparr>"

definition Work_Add :: "'a \<Rightarrow> 'a Work \<Rightarrow> 'a Work" where
  "Work_Add item w =
     (if item \<in> work_added w then w
      else w\<lparr>work_added := insert item (work_added w), work_todo := work_todo w @ [item]\<rparr>)"

definition Work_take :: "('a list \<Rightarrow> nat) \<Rightarrow> 'a Work \<Rightarrow> 'a \<times> 'a Work" where
  "Work_take pick w =
     (let i = pick (work_todo w) mod length (work_todo w)
      in (work_todo w ! i, w\<lparr>work_todo := take i (work_todo w) @ drop (Suc i) (work_todo w)\<rparr>))"

text \<open>
  The function run on an item returns the new shared state and the items it adds, in the
  order of its calls of \<open>Add\<close>.
\<close>

partial_function (option) Work_Do ::
  "('a list \<Rightarrow> nat) \<Rightarrow> ('a \<Rightarrow> 's \<Rightarrow> 's \<times> 'a list) \<Rightarrow> 'a Work \<Rightarrow> 's \<Rightarrow> 's option" where
  "Work_Do pick f w s =
     (if work_todo w = [] then Some s
      else
        (case Work_take pick w of (item, w1) \<Rightarrow>
          (case f item s of (s', new) \<Rightarrow>
             Work_Do pick f (fold Work_Add new w1) s')))"

section \<open>\<open>buildList\<close>: exploring the graph\<close>

definition put_node :: "'e graph_state \<Rightarrow> 'e modGraphNode \<Rightarrow> 'e graph_state" where
  "put_node st node = st\<lparr>modGraph := (modGraph st)(node_m node \<mapsto> node)\<rparr>"

definition setErr :: "'e graph_state \<Rightarrow> 'e modGraphNode \<Rightarrow> 'e \<Rightarrow> 'e graph_state" where
  "setErr st n err = (put_node st (n\<lparr>node_err := Some err\<rparr>))\<lparr>haveErr := True\<rparr>"

text \<open>Lines 109 to 116: the node is registered and \<open>min\<close> is updated, under the mutex.\<close>

definition register :: "'e Reqs \<Rightarrow> module_version \<Rightarrow> 'e graph_state \<Rightarrow> 'e graph_state" where
  "register reqs m st =
     (put_node st \<lparr>node_m = m, node_required = [], node_upgrade = zero_version, node_err = None\<rparr>)
       \<lparr>min_map :=
          (if Version m \<noteq> none then
             (case map_of (min_map st) (Path m) of
                None \<Rightarrow> AList.update (Path m) (Version m) (min_map st)
              | Some v \<Rightarrow>
                  if Reqs_Max reqs v (Version m) \<noteq> v
                  then AList.update (Path m) (Version m) (min_map st)
                  else min_map st)
           else min_map st)\<rparr>"

text \<open>Lines 130 to 140: the upgrade of the item, when an upgrade function is given.\<close>

definition visit_upgrade ::
  "(module_version \<Rightarrow> 'e + module_version) option \<Rightarrow> 'e modGraphNode \<Rightarrow> 'e graph_state \<Rightarrow>
     module_version list \<Rightarrow> 'e graph_state \<times> module_version list" where
  "visit_upgrade upgrade node st adds =
     (case upgrade of
        None \<Rightarrow> (put_node st node, adds)
      | Some up \<Rightarrow>
          (case up (node_m node) of
             Inl err \<Rightarrow> (setErr st node err, adds)
           | Inr u \<Rightarrow>
               if u \<noteq> node_m node
               then (put_node st (node\<lparr>node_upgrade := u\<rparr>), adds @ [u])
               else (put_node st node, adds)))"

text \<open>The function given to \<open>work.Do\<close> (lines 105 to 141).\<close>

definition visit ::
  "'e Reqs \<Rightarrow> (module_version \<Rightarrow> 'e + module_version) option \<Rightarrow> module_version \<Rightarrow>
     'e graph_state \<Rightarrow> 'e graph_state \<times> module_version list" where
  "visit reqs upgrade m st =
     (let node = \<lparr>node_m = m, node_required = [], node_upgrade = zero_version, node_err = None\<rparr>;
          st1 = register reqs m st
      in if Version m \<noteq> none then
           (case Reqs_Required reqs m of
              Inl err \<Rightarrow> (setErr st1 node err, [])
            | Inr required \<Rightarrow>
                visit_upgrade upgrade (node\<lparr>node_required := required\<rparr>) st1 required)
         else visit_upgrade upgrade node st1 [])"

definition init_state :: "'e graph_state" where
  "init_state = \<lparr>modGraph = Map.empty, min_map = [], haveErr = False\<rparr>"

definition explore ::
  "(module_version list \<Rightarrow> nat) \<Rightarrow> module_version \<Rightarrow> 'e Reqs \<Rightarrow>
     (module_version \<Rightarrow> 'e + module_version) option \<Rightarrow> 'e graph_state option" where
  "explore pick target reqs upgrade =
     Work_Do pick (visit reqs upgrade) (Work_Add target Work_init) init_state"

section \<open>\<open>buildList\<close>: reporting an error\<close>

text \<open>
  A \<open>*modGraphNode\<close> is nil or points to the node of one module version. Each version is
  an item once, so it has one node, and when the search below runs the nodes no longer
  change: a pointer is modelled by the node it points to, nil by \<open>None\<close>.
  The map \<open>neededBy\<close> reads nil at a pointer that was never stored.
\<close>

type_synonym 'e node_ptr = "'e modGraphNode option"

text \<open>The loop of line 161, which follows \<open>neededBy\<close> from the failing node.\<close>

partial_function (option) errPath_loop ::
  "('e node_ptr \<Rightarrow> 'e node_ptr) \<Rightarrow> 'e node_ptr \<Rightarrow> 'e modGraphNode \<Rightarrow>
     module_version list \<Rightarrow> (module_version \<rightharpoonup> module_version) \<Rightarrow>
     (module_version list \<times> (module_version \<rightharpoonup> module_version)) option" where
  "errPath_loop neededBy n prev errPath pathUpgrade =
     (case n of
        None \<Rightarrow> Some (errPath, pathUpgrade)
      | Some nd \<Rightarrow>
          errPath_loop neededBy (neededBy (Some nd)) nd (errPath @ [node_m nd])
            (if node_upgrade nd = node_m prev
             then pathUpgrade(node_m nd \<mapsto> node_m prev) else pathUpgrade))"

text \<open>The loop of lines 167 to 172, which reverses \<open>errPath\<close> in place.\<close>

function reverse_loop :: "nat \<Rightarrow> nat \<Rightarrow> 'a list \<Rightarrow> 'a list" where
  "reverse_loop i j xs =
     (if i < j then reverse_loop (i + 1) (j - 1) (xs[i := xs ! j, j := xs ! i]) else xs)"
  by pat_completeness auto
termination
  by (relation "measure (\<lambda>(i, j, xs). j - i)") auto

definition isUpgrade ::
  "(module_version \<rightharpoonup> module_version) \<Rightarrow> module_version \<Rightarrow> module_version \<Rightarrow> bool" where
  "isUpgrade pathUpgrade from to =
     ((case pathUpgrade from of None \<Rightarrow> zero_version | Some u \<Rightarrow> u) = to)"

text \<open>Lines 185 to 192: the neighbours not seen before are given their parent and queued.\<close>

fun enqueue ::
  "(module_version \<rightharpoonup> 'e modGraphNode) \<Rightarrow> 'e modGraphNode \<Rightarrow> module_version list \<Rightarrow>
     ('e node_ptr \<Rightarrow> 'e node_ptr) \<times> 'e node_ptr list \<Rightarrow>
     ('e node_ptr \<Rightarrow> 'e node_ptr) \<times> 'e node_ptr list" where
  "enqueue g node [] (neededBy, q) = (neededBy, q)"
| "enqueue g node (neighbor # ns) (neededBy, q) =
     (let nn = g neighbor
      in if neededBy nn \<noteq> None then enqueue g node ns (neededBy, q)
         else enqueue g node ns (neededBy(nn := Some node), q @ [nn]))"

definition neighbors :: "'e modGraphNode \<Rightarrow> module_version list" where
  "neighbors node =
     (if Path (node_upgrade node) \<noteq> [] then node_required node @ [node_upgrade node]
      else node_required node)"

text \<open>
  The search of lines 150 to 193. It returns \<open>Some\<close> of the call's outcome when it reaches
  a \<open>return\<close> or a nil node, and \<open>None\<close> when the queue runs empty and control falls
  through to the finalizer.
\<close>

partial_function (option) find_error ::
  "(module_version \<rightharpoonup> 'e modGraphNode) \<Rightarrow> ('e node_ptr \<Rightarrow> 'e node_ptr) \<Rightarrow> 'e node_ptr list \<Rightarrow>
     (module_version list, 'e) outcome option option" where
  "find_error g neededBy q =
     (case q of
        [] \<Rightarrow> Some None
      | ptr # q' \<Rightarrow>
          (case ptr of
             None \<Rightarrow> Some (Some (Panic NilDereference))
           | Some node \<Rightarrow>
               (case node_err node of
                  Some err \<Rightarrow>
                    (case errPath_loop neededBy (neededBy (Some node)) node [node_m node] Map.empty of
                       None \<Rightarrow> None
                     | Some (errPath, pathUpgrade) \<Rightarrow>
                         Some (Some (Fail (NewBuildListError err
                           (reverse_loop 0 (length errPath - 1) errPath) (isUpgrade pathUpgrade)))))
                | None \<Rightarrow>
                    (case enqueue g node (neighbors node) (neededBy, q') of
                       (neededBy', q'') \<Rightarrow> find_error g neededBy' q''))))"

section \<open>\<open>buildList\<close>: the final list\<close>

text \<open>Lines 214 to 222: the requirements of one selected version are checked.\<close>

fun check_required ::
  "'e Reqs \<Rightarrow> module_version \<Rightarrow> (string \<times> string) list \<Rightarrow> module_version list \<Rightarrow> mistake option" where
  "check_required reqs target mn [] = None"
| "check_required reqs target mn (r # rs) =
     (if Version r = none then check_required reqs target mn rs
      else
        (let v = lookup_str mn (Path r)
         in if Path r \<noteq> Path target \<and> Reqs_Max reqs v (Version r) \<noteq> v
            then Some (NotSatisfied v r)
            else check_required reqs target mn rs))"

text \<open>Lines 207 to 223: the loop over the entries of \<open>min\<close>.\<close>

fun collect ::
  "'e Reqs \<Rightarrow> module_version \<Rightarrow> 'e graph_state \<Rightarrow> (string \<times> string) list \<Rightarrow>
     module_version list \<Rightarrow> mistake + module_version list" where
  "collect reqs target st [] list = Inr list"
| "collect reqs target st ((path, vers) # es) list =
     (let list' = (if path \<noteq> Path target then list @ [\<lparr>Path = path, Version = vers\<rparr>] else list)
      in case modGraph st \<lparr>Path = path, Version = vers\<rparr> of
           None \<Rightarrow> Inl NilDereference
         | Some n \<Rightarrow>
             (case check_required reqs target (min_map st) (node_required n) of
                Some p \<Rightarrow> Inl p
              | None \<Rightarrow> collect reqs target st es list'))"

text \<open>
  Lines 198 to 229. \<open>sort.Slice\<close> orders the tail by path; it is not stable, which does not
  show when the paths are distinct.
\<close>

definition finalize ::
  "'e Reqs \<Rightarrow> module_version \<Rightarrow> 'e graph_state \<Rightarrow> (module_version list, 'e) outcome" where
  "finalize reqs target st =
     (let v = lookup_str (min_map st) (Path target)
      in if v \<noteq> Version target then Panic (ChoseVersion v target)
         else
           (case collect reqs target st (min_map st) [target] of
              Inl p \<Rightarrow> Panic p
            | Inr list \<Rightarrow> Return (hd list # sort_key Path (tl list))))"

definition buildList ::
  "(module_version list \<Rightarrow> nat) \<Rightarrow> module_version \<Rightarrow> 'e Reqs \<Rightarrow>
     (module_version \<Rightarrow> 'e + module_version) option \<Rightarrow> (module_version list, 'e) outcome option" where
  "buildList pick target reqs upgrade =
     (case explore pick target reqs upgrade of
        None \<Rightarrow> None
      | Some st \<Rightarrow>
          (case (if haveErr st
                 then find_error (modGraph st) (\<lambda>_. None) [modGraph st target]
                 else Some None) of
             None \<Rightarrow> None
           | Some (Some res) \<Rightarrow> Some res
           | Some None \<Rightarrow> Some (finalize reqs target st)))"

definition BuildList ::
  "(module_version list \<Rightarrow> nat) \<Rightarrow> module_version \<Rightarrow> 'e Reqs \<Rightarrow>
     (module_version list, 'e) outcome option" where
  "BuildList pick target reqs = buildList pick target reqs None"

section \<open>\<open>UpgradeAll\<close> and \<open>Upgrade\<close>\<close>



text \<open>The struct \<open>override\<close> and its method \<open>Required\<close>.\<close>

definition override :: "module_version \<Rightarrow> module_version list \<Rightarrow> 'e Reqs \<Rightarrow> 'e Reqs" where
  "override target list reqs =
     reqs\<lparr>Reqs_Required := (\<lambda>m. if m = target then Inr list else Reqs_Required reqs m)\<rparr>"

text \<open>Lines 345 to 355: the loop over the modules to upgrade.\<close>

fun Upgrade_loop ::
  "'e Reqs \<Rightarrow> string set \<Rightarrow> module_version list \<Rightarrow>
     module_version list \<times> (string \<rightharpoonup> string) \<Rightarrow> module_version list \<times> (string \<rightharpoonup> string)" where
  "Upgrade_loop reqs pathInList [] (list, upgradeTo) = (list, upgradeTo)"
| "Upgrade_loop reqs pathInList (u # us) (list, upgradeTo) =
     Upgrade_loop reqs pathInList us
       (if Path u \<notin> pathInList then list @ [\<lparr>Path = Path u, Version = none\<rparr>] else list,
        case upgradeTo (Path u) of
          Some prev \<Rightarrow> upgradeTo(Path u \<mapsto> Reqs_Max reqs prev (Version u))
        | None \<Rightarrow> upgradeTo(Path u \<mapsto> Version u))"

definition Upgrade_upgrade :: "(string \<rightharpoonup> string) \<Rightarrow> module_version \<Rightarrow> 'e + module_version" where
  "Upgrade_upgrade upgradeTo m =
     (case upgradeTo (Path m) of
        Some v \<Rightarrow> Inr \<lparr>Path = Path m, Version = v\<rparr>
      | None \<Rightarrow> Inr m)"

definition Upgrade ::
  "(module_version list \<Rightarrow> nat) \<Rightarrow> module_version \<Rightarrow> 'e Reqs \<Rightarrow> module_version list \<Rightarrow>
     (module_version list, 'e) outcome option" where
  "Upgrade pick target reqs upgrade =
     (case Reqs_Required reqs target of
        Inl err \<Rightarrow> Some (Fail (ProviderError err))
      | Inr list \<Rightarrow>
          (case Upgrade_loop reqs (Path ` set list) upgrade (list, Map.empty) of
             (list', upgradeTo) \<Rightarrow>
               buildList pick target (override target list' reqs)
                 (Some (Upgrade_upgrade upgradeTo))))"

section \<open>\<open>Req\<close>\<close>

text \<open>
  The first closure \<open>walk\<close> of \<open>Req\<close> (lines 250 to 267) together with the loops
  that call it: \<open>walk_list ms\<close> walks the modules of \<open>ms\<close> in turn and stops at the
  first error. The state is \<open>reqCache\<close> and \<open>postorder\<close>.
\<close>

type_synonym walk_state = "(module_version \<rightharpoonup> module_version list) \<times> module_version list"

partial_function (option) walk_list ::
  "'e Reqs \<Rightarrow> module_version list \<Rightarrow> walk_state \<Rightarrow> ('e + walk_state) option" where
  "walk_list reqs ms st =
     (case ms of
        [] \<Rightarrow> Some (Inr st)
      | m # rest \<Rightarrow>
          (if fst st m \<noteq> None then walk_list reqs rest st
           else
             (case Reqs_Required reqs m of
                Inl err \<Rightarrow> Some (Inl err)
              | Inr required \<Rightarrow>
                  Option.bind (walk_list reqs required ((fst st)(m \<mapsto> required), snd st))
                    (\<lambda>r. case r of
                       Inl err \<Rightarrow> Some (Inl err)
                     | Inr st' \<Rightarrow> walk_list reqs rest (fst st', snd st' @ [m])))))"

definition cached :: "(module_version \<rightharpoonup> module_version list) \<Rightarrow> module_version \<Rightarrow> module_version list" where
  "cached reqCache m = (case reqCache m of None \<Rightarrow> [] | Some required \<Rightarrow> required)"

text \<open>The second closure \<open>walk\<close> (lines 276 to 285), which marks what a module implies.\<close>

partial_function (option) have_list ::
  "(module_version \<rightharpoonup> module_version list) \<Rightarrow> module_version list \<Rightarrow> module_version set \<Rightarrow>
     module_version set option" where
  "have_list reqCache ms have =
     (case ms of
        [] \<Rightarrow> Some have
      | m # rest \<Rightarrow>
          (if m \<in> have then have_list reqCache rest have
           else Option.bind (have_list reqCache (cached reqCache m) (insert m have))
                  (\<lambda>have'. have_list reqCache rest have')))"

text \<open>Lines 286 to 293.\<close>

fun Req_max :: "'e Reqs \<Rightarrow> module_version list \<Rightarrow> (string \<rightharpoonup> string) \<Rightarrow> (string \<rightharpoonup> string)" where
  "Req_max reqs [] mx = mx"
| "Req_max reqs (m # ms) mx =
     Req_max reqs ms
       (case mx (Path m) of
          Some v \<Rightarrow> mx(Path m \<mapsto> Reqs_Max reqs (Version m) v)
        | None \<Rightarrow> mx(Path m \<mapsto> Version m))"

definition lookup_map :: "(string \<rightharpoonup> string) \<Rightarrow> string \<Rightarrow> string" where
  "lookup_map mx k = (case mx k of None \<Rightarrow> [] | Some v \<Rightarrow> v)"

text \<open>Lines 296 to 300: the modules of \<open>base\<close>.\<close>

fun Req_base ::
  "(module_version \<rightharpoonup> module_version list) \<Rightarrow> (string \<rightharpoonup> string) \<Rightarrow> string list \<Rightarrow>
     module_version list \<times> module_version set \<Rightarrow> (module_version list \<times> module_version set) option" where
  "Req_base reqCache mx [] (mn, have) = Some (mn, have)"
| "Req_base reqCache mx (path # base) (mn, have) =
     (let m = \<lparr>Path = path, Version = lookup_map mx path\<rparr>
      in case have_list reqCache [m] have of
           None \<Rightarrow> None
         | Some have' \<Rightarrow> Req_base reqCache mx base (mn @ [m], have'))"

text \<open>
  Lines 302 to 312: the loop from the end of \<open>postorder\<close> to its start, here on the
  reversed list.
\<close>

fun Req_rest ::
  "(module_version \<rightharpoonup> module_version list) \<Rightarrow> (string \<rightharpoonup> string) \<Rightarrow> module_version list \<Rightarrow>
     module_version list \<times> module_version set \<Rightarrow> (module_version list \<times> module_version set) option" where
  "Req_rest reqCache mx [] (mn, have) = Some (mn, have)"
| "Req_rest reqCache mx (m # ms) (mn, have) =
     (if lookup_map mx (Path m) \<noteq> Version m then Req_rest reqCache mx ms (mn, have)
      else if m \<notin> have then
        (case have_list reqCache [m] have of
           None \<Rightarrow> None
         | Some have' \<Rightarrow> Req_rest reqCache mx ms (mn @ [m], have'))
      else Req_rest reqCache mx ms (mn, have))"

definition Req ::
  "(module_version list \<Rightarrow> nat) \<Rightarrow> module_version \<Rightarrow> string list \<Rightarrow> 'e Reqs \<Rightarrow>
     (module_version list, 'e) outcome option" where
  "Req pick target base reqs =
     (case BuildList pick target reqs of
        None \<Rightarrow> None
      | Some (Panic p) \<Rightarrow> Some (Panic p)
      | Some (Fail err) \<Rightarrow> Some (Fail err)
      | Some (Return list) \<Rightarrow>
          (case walk_list reqs list ([target \<mapsto> []], []) of
             None \<Rightarrow> None
           | Some (Inl err) \<Rightarrow> Some (Fail (ProviderError err))
           | Some (Inr (reqCache, postorder)) \<Rightarrow>
               (let mx = Req_max reqs list Map.empty
                in case Req_base reqCache mx base ([], {}) of
                     None \<Rightarrow> None
                   | Some (mn, have) \<Rightarrow>
                       (case Req_rest reqCache mx (rev postorder) (mn, have) of
                          None \<Rightarrow> None
                        | Some (mn', have') \<Rightarrow> Some (Return (sort_key Path mn'))))))"

section \<open>\<open>Downgrade\<close>\<close>

record dg_state =
  added :: "module_version set"
  rdeps :: "module_version \<Rightarrow> module_version list"
  excluded :: "module_version set"

text \<open>
  The closure \<open>exclude\<close> (lines 393 to 401) and its loop: \<open>exclude_list ms\<close> excludes
  the modules of \<open>ms\<close> in turn.
\<close>

partial_function (option) exclude_list :: "module_version list \<Rightarrow> dg_state \<Rightarrow> dg_state option" where
  "exclude_list ms st =
     (case ms of
        [] \<Rightarrow> Some st
      | m # rest \<Rightarrow>
          (if m \<in> excluded st then exclude_list rest st
           else Option.bind (exclude_list (rdeps st m) (st\<lparr>excluded := insert m (excluded st)\<rparr>))
                  (\<lambda>st'. exclude_list rest st')))"

definition exclude :: "module_version \<Rightarrow> dg_state \<Rightarrow> dg_state option" where
  "exclude m st = exclude_list [m] st"

text \<open>
  The closure \<open>add\<close> (lines 403 to 434). \<open>add_loop m rs\<close> is the loop of line 426 of the
  call \<open>add(m)\<close>, with \<open>rs\<close> the requirements still to come; each turn runs the call
  \<open>add(r)\<close>, whose own loop it enters when \<open>r\<close> is new and within its bound. When
  \<open>Required\<close> fails the module is excluded and the loop runs over the nil list.
\<close>

partial_function (option) add_loop ::
  "'e Reqs \<Rightarrow> (string \<rightharpoonup> string) \<Rightarrow> module_version \<Rightarrow> module_version list \<Rightarrow> dg_state \<Rightarrow>
     dg_state option" where
  "add_loop reqs mx m rs st =
     (case rs of
        [] \<Rightarrow> Some st
      | r # rest \<Rightarrow>
          Option.bind
            (if r \<in> added st then Some st
             else
               (let st0 = st\<lparr>added := insert r (added st)\<rparr>
                in if (case mx (Path r) of None \<Rightarrow> False | Some v \<Rightarrow> Reqs_Max reqs (Version r) v \<noteq> v)
                   then exclude r st0
                   else
                     (case Reqs_Required reqs r of
                        Inl err \<Rightarrow> exclude r st0
                      | Inr list \<Rightarrow> add_loop reqs mx r list st0)))
            (\<lambda>st1. if r \<in> excluded st1 then exclude m st1
                    else add_loop reqs mx m rest (st1\<lparr>rdeps := (rdeps st1)(r := rdeps st1 r @ [m])\<rparr>)))"

definition add :: "'e Reqs \<Rightarrow> (string \<rightharpoonup> string) \<Rightarrow> module_version \<Rightarrow> dg_state \<Rightarrow> dg_state option" where
  "add reqs mx m st =
     (if m \<in> added st then Some st
      else
        (let st0 = st\<lparr>added := insert m (added st)\<rparr>
         in if (case mx (Path m) of None \<Rightarrow> False | Some v \<Rightarrow> Reqs_Max reqs (Version m) v \<noteq> v)
            then exclude m st0
            else
              (case Reqs_Required reqs m of
                 Inl err \<Rightarrow> exclude m st0
               | Inr list \<Rightarrow> add_loop reqs mx m list st0)))"

text \<open>Lines 381 to 385: the modules to downgrade lower the bound of their path.\<close>

fun Downgrade_max ::
  "'e Reqs \<Rightarrow> module_version list \<Rightarrow> (string \<rightharpoonup> string) \<Rightarrow> (string \<rightharpoonup> string)" where
  "Downgrade_max reqs [] mx = mx"
| "Downgrade_max reqs (d # ds) mx =
     Downgrade_max reqs ds
       (case mx (Path d) of
          None \<Rightarrow> mx(Path d \<mapsto> Version d)
        | Some v \<Rightarrow> if Reqs_Max reqs v (Version d) \<noteq> Version d then mx(Path d \<mapsto> Version d) else mx)"

text \<open>
  The loop of lines 441 to 463. It ends with the error of \<open>Previous\<close>, with no module
  when the version reached is \<open>none\<close> (\<open>continue List\<close>), or with the module to append.
\<close>

text \<open>Lines 455 to 457: the version reached is replaced by the bound when it jumps over it.\<close>

definition clamp_previous ::
  "'e Reqs \<Rightarrow> (string \<rightharpoonup> string) \<Rightarrow> module_version \<Rightarrow> module_version \<Rightarrow> module_version" where
  "clamp_previous reqs mx r p =
     (let v = lookup_map mx (Path r)
      in if Reqs_Max reqs v (Version r) \<noteq> v \<and> Reqs_Max reqs (Version p) v \<noteq> Version p
         then p\<lparr>Version := v\<rparr> else p)"

partial_function (option) previous_loop ::
  "'e Reqs \<Rightarrow> (string \<rightharpoonup> string) \<Rightarrow> module_version \<Rightarrow> dg_state \<Rightarrow>
     ('e + module_version option \<times> dg_state) option" where
  "previous_loop reqs mx r st =
     (if r \<in> excluded st then
        (case Reqs_Previous reqs r of
           Inl err \<Rightarrow> Some (Inl err)
         | Inr p0 \<Rightarrow>
             (let p = clamp_previous reqs mx r p0
              in if Version p = none then Some (Inr (None, st))
                 else Option.bind (add reqs mx p st) (\<lambda>st'. previous_loop reqs mx p st')))
      else Some (Inr (Some r, st)))"

text \<open>The loop \<open>List\<close> of lines 439 to 465.\<close>

fun Downgrade_loop ::
  "'e Reqs \<Rightarrow> (string \<rightharpoonup> string) \<Rightarrow> module_version list \<Rightarrow> module_version list \<Rightarrow> dg_state \<Rightarrow>
     (module_version list, 'e) outcome option" where
  "Downgrade_loop reqs mx [] out st = Some (Return out)"
| "Downgrade_loop reqs mx (r # rs) out st =
     (case add reqs mx r st of
        None \<Rightarrow> None
      | Some st1 \<Rightarrow>
          (case previous_loop reqs mx r st1 of
             None \<Rightarrow> None
           | Some (Inl err) \<Rightarrow> Some (Fail (ProviderError err))
           | Some (Inr (None, st2)) \<Rightarrow> Downgrade_loop reqs mx rs out st2
           | Some (Inr (Some r', st2)) \<Rightarrow> Downgrade_loop reqs mx rs (out @ [r']) st2))"

text \<open>Lines 377 to 385: the map \<open>max\<close> of \<open>Downgrade\<close>, the bound of each path.\<close>

definition Downgrade_cap ::
  "'e Reqs \<Rightarrow> module_version list \<Rightarrow> module_version list \<Rightarrow> (string \<rightharpoonup> string)" where
  "Downgrade_cap reqs list downgrade =
     Downgrade_max reqs downgrade (fold (\<lambda>r mx. mx(Path r \<mapsto> Version r)) list Map.empty)"

definition Downgrade ::
  "module_version \<Rightarrow> 'e Reqs \<Rightarrow> module_version list \<Rightarrow> (module_version list, 'e) outcome option" where
  "Downgrade target reqs downgrade =
     (case Reqs_Required reqs target of
        Inl err \<Rightarrow> Some (Fail (ProviderError err))
      | Inr list \<Rightarrow>
          Downgrade_loop reqs (Downgrade_cap reqs list downgrade) list [target]
            \<lparr>added = {}, rdeps = (\<lambda>_. []), excluded = {}\<rparr>)"

section \<open>Notions used to state the properties\<close>

text \<open>The build-list entry of an entry of \<open>min\<close>.\<close>

definition entry :: "string \<times> string \<Rightarrow> module_version" where
  "entry e = \<lparr>Path = fst e, Version = snd e\<rparr>"

text \<open>
  The contract of \<open>Max\<close> in the interface \<open>Reqs\<close>: it returns one of its arguments, the
  greater one in some total order. Such a function is commutative and associative, and
  every function with the three properties below is the maximum of a total order.
\<close>

definition max_order :: "(string \<Rightarrow> string \<Rightarrow> string) \<Rightarrow> bool" where
  "max_order M \<longleftrightarrow>
     (\<forall>a b. M a b = a \<or> M a b = b) \<and> (\<forall>a b. M a b = M b a) \<and>
     (\<forall>a b c. M (M a b) c = M a (M b c))"

subsection \<open>Providers for the examples\<close>

text \<open>
  A provider given by tables, as the one of the package's tests: a module without an
  entry requires nothing, and has no previous version. Its \<open>Max\<close> puts \<open>none\<close> below and
  the empty version (the version of the main module in the go command) above every other
  version, and compares the others as strings.
\<close>

definition version_key :: "string \<Rightarrow> nat \<times> string" where
  "version_key v = (if v = [] then 2 else if v = none then 0 else 1, v)"

definition example_Max :: "string \<Rightarrow> string \<Rightarrow> string" where
  "example_Max a b = (if version_key a \<le> version_key b then b else a)"

definition table_Required ::
  "(module_version \<times> (string + module_version list)) list \<Rightarrow> module_version \<Rightarrow>
     string + module_version list" where
  "table_Required tab m = (case map_of tab m of None \<Rightarrow> Inr [] | Some r \<Rightarrow> r)"

definition table_Previous ::
  "(module_version \<times> (string + module_version)) list \<Rightarrow> module_version \<Rightarrow>
     string + module_version" where
  "table_Previous tab m =
     (case map_of tab m of None \<Rightarrow> Inr \<lparr>Path = Path m, Version = none\<rparr> | Some r \<Rightarrow> r)"

definition example_reqs ::
  "(module_version \<times> (string + module_version list)) list \<Rightarrow>
     (module_version \<times> (string + module_version)) list \<Rightarrow> string Reqs" where
  "example_reqs required previous =
     \<lparr>Reqs_Required = table_Required required, Reqs_Max = example_Max,
      Reqs_Upgrade = Inr, Reqs_Previous = table_Previous previous\<rparr>"

definition main_module :: module_version where
  "main_module = \<lparr>Path = ''main'', Version = []\<rparr>"

definition first_item :: "module_version list \<Rightarrow> nat" where
  "first_item todo = 0"

subsection \<open>The reachable requirement graph\<close>

text \<open>
  The vertices that \<open>BuildList\<close> can reach from the root: the requirements of a vertex are
  followed when its version is not \<open>none\<close> and \<open>Required\<close> succeeds on it.
  \<open>required_versions p\<close> are the versions \<open>v\<close> other than \<open>none\<close> such that some edge
  \<open>(u, {p, v})\<close> lies in that subgraph.
\<close>

inductive_set reachable :: "'e Reqs \<Rightarrow> module_version \<Rightarrow> module_version set"
  for reqs :: "'e Reqs" and target :: module_version where
  root: "target \<in> reachable reqs target"
| step: "u \<in> reachable reqs target \<Longrightarrow> Version u \<noteq> none \<Longrightarrow> Reqs_Required reqs u = Inr rs \<Longrightarrow>
           r \<in> set rs \<Longrightarrow> r \<in> reachable reqs target"

definition required_versions :: "'e Reqs \<Rightarrow> module_version \<Rightarrow> string \<Rightarrow> string set" where
  "required_versions reqs target p =
     {v. v \<noteq> none \<and>
         (\<exists>u \<in> reachable reqs target. \<exists>rs. Version u \<noteq> none \<and> Reqs_Required reqs u = Inr rs \<and>
            \<lparr>Path = p, Version = v\<rparr> \<in> set rs)}"

subsection \<open>What the exploration maintains\<close>

text \<open>
  The node that a visit of \<open>m\<close> leaves in \<open>modGraph\<close> and the items it adds depend on the
  provider and on \<open>m\<close> only, not on the shared state.
\<close>

definition visit_node ::
  "'e Reqs \<Rightarrow> (module_version \<Rightarrow> 'e + module_version) option \<Rightarrow> module_version \<Rightarrow> 'e modGraphNode" where
  "visit_node reqs upgrade m = the (modGraph (fst (visit reqs upgrade m init_state)) m)"

definition visit_adds ::
  "'e Reqs \<Rightarrow> (module_version \<Rightarrow> 'e + module_version) option \<Rightarrow> module_version \<Rightarrow> module_version list" where
  "visit_adds reqs upgrade m = snd (visit reqs upgrade m init_state)"

definition work_inv :: "'a Work \<Rightarrow> bool" where
  "work_inv w \<longleftrightarrow> distinct (work_todo w) \<and> set (work_todo w) \<subseteq> work_added w \<and> finite (work_added w)"

definition explore_inv ::
  "module_version \<Rightarrow> 'e Reqs \<Rightarrow> (module_version \<Rightarrow> 'e + module_version) option \<Rightarrow>
     module_version Work \<Rightarrow> 'e graph_state \<Rightarrow> bool" where
  "explore_inv target reqs upgrade w st \<longleftrightarrow>
     work_inv w \<and> target \<in> work_added w \<and>
     dom (modGraph st) = work_added w - set (work_todo w) \<and>
     (\<forall>m \<in> dom (modGraph st).
        modGraph st m = Some (visit_node reqs upgrade m) \<and>
        set (visit_adds reqs upgrade m) \<subseteq> work_added w) \<and>
     (haveErr st \<longleftrightarrow> (\<exists>m \<in> dom (modGraph st). node_err (visit_node reqs upgrade m) \<noteq> None))"

definition min_inv :: "'e graph_state \<Rightarrow> bool" where
  "min_inv st \<longleftrightarrow>
     distinct (map fst (min_map st)) \<and>
     (\<forall>p v. map_of (min_map st) p = Some v \<longrightarrow>
        v \<noteq> none \<and> \<lparr>Path = p, Version = v\<rparr> \<in> dom (modGraph st)) \<and>
     (\<forall>m \<in> dom (modGraph st). Version m \<noteq> none \<longrightarrow> map_of (min_map st) (Path m) \<noteq> None)"

definition min_max_inv :: "'e Reqs \<Rightarrow> 'e graph_state \<Rightarrow> bool" where
  "min_max_inv reqs st \<longleftrightarrow>
     (\<forall>m \<in> dom (modGraph st). Version m \<noteq> none \<longrightarrow>
        Reqs_Max reqs (lookup_str (min_map st) (Path m)) (Version m) = lookup_str (min_map st) (Path m))"

definition root_inv :: "module_version \<Rightarrow> 'e Reqs \<Rightarrow> module_version Work \<Rightarrow> 'e graph_state \<Rightarrow> bool" where
  "root_inv target reqs w st \<longleftrightarrow>
     (modGraph st = Map.empty \<and> min_map st = [] \<and> work_todo w = [target]) \<or>
     (target \<in> dom (modGraph st) \<and>
      (lookup_str (min_map st) (Path target) = Version target \<longrightarrow>
         (\<forall>m \<in> dom (modGraph st). Path m = Path target \<longrightarrow> Version m \<noteq> none \<longrightarrow> m \<noteq> target \<longrightarrow>
            Reqs_Max reqs (Version target) (Version m) = Version target)) \<and>
      ((\<forall>v. Reqs_Max reqs (Version target) v = Version target) \<longrightarrow> Version target \<noteq> none \<longrightarrow>
         lookup_str (min_map st) (Path target) = Version target))"

definition explore_invs ::
  "module_version \<Rightarrow> 'e Reqs \<Rightarrow> (module_version \<Rightarrow> 'e + module_version) option \<Rightarrow>
     module_version Work \<Rightarrow> 'e graph_state \<Rightarrow> bool" where
  "explore_invs target reqs upgrade w st \<longleftrightarrow>
     explore_inv target reqs upgrade w st \<and> min_inv st \<and> root_inv target reqs w st \<and>
     (max_order (Reqs_Max reqs) \<longrightarrow> min_max_inv reqs st)"

text \<open>Every neighbour of a node of the graph has a node of its own.\<close>

definition closed_graph :: "(module_version \<rightharpoonup> 'e modGraphNode) \<Rightarrow> bool" where
  "closed_graph g \<longleftrightarrow> (\<forall>m n. g m = Some n \<longrightarrow> (\<forall>x \<in> set (neighbors n). g x \<noteq> None))"

subsection \<open>What \<open>Downgrade\<close> maintains\<close>

text \<open>
  A module is under the bound of its path; the modules a module requires, directly or not;
  and the versions reached from a requirement by \<open>Previous\<close>, as the loop of line 441
  walks them.
\<close>

definition under_cap :: "'e Reqs \<Rightarrow> (string \<rightharpoonup> string) \<Rightarrow> module_version \<Rightarrow> bool" where
  "under_cap reqs mx m =
     (case mx (Path m) of None \<Rightarrow> True | Some v \<Rightarrow> Reqs_Max reqs (Version m) v = v)"

inductive_set required_closure :: "'e Reqs \<Rightarrow> module_version \<Rightarrow> module_version set"
  for reqs :: "'e Reqs" and m :: module_version where
  self: "m \<in> required_closure reqs m"
| step: "x \<in> required_closure reqs m \<Longrightarrow> Reqs_Required reqs x = Inr list \<Longrightarrow> r \<in> set list \<Longrightarrow>
           r \<in> required_closure reqs m"

inductive_set previous_chain ::
  "'e Reqs \<Rightarrow> (string \<rightharpoonup> string) \<Rightarrow> module_version \<Rightarrow> module_version set"
  for reqs :: "'e Reqs" and mx :: "string \<rightharpoonup> string" and r :: module_version where
  start: "r \<in> previous_chain reqs mx r"
| previous: "x \<in> previous_chain reqs mx r \<Longrightarrow> Reqs_Previous reqs x = Inr p \<Longrightarrow>
           clamp_previous reqs mx x p \<in> previous_chain reqs mx r"

definition dg_inv :: "'e Reqs \<Rightarrow> (string \<rightharpoonup> string) \<Rightarrow> module_version set \<Rightarrow> dg_state \<Rightarrow> bool" where
  "dg_inv reqs mx S st \<longleftrightarrow>
     (\<forall>x \<in> added st - excluded st. under_cap reqs mx x) \<and>
     (\<forall>x \<in> added st - excluded st - S.
        \<exists>list. Reqs_Required reqs x = Inr list \<and>
          (\<forall>r \<in> set list. r \<in> added st \<and> x \<in> set (rdeps st r))) \<and>
     (\<forall>r \<in> excluded st. set (rdeps st r) \<subseteq> excluded st)"

definition dg_mono :: "dg_state \<Rightarrow> dg_state \<Rightarrow> bool" where
  "dg_mono st st' \<longleftrightarrow>
     added st \<subseteq> added st' \<and> excluded st \<subseteq> excluded st' \<and>
     (\<forall>x. set (rdeps st x) \<subseteq> set (rdeps st' x))"

text \<open>
  A module fits when it and every module it requires, directly or not, is under the bound
  of its path and has requirements that load. \<open>lowered r x\<close> follows the loop of line
  441 from the requirement \<open>r\<close>: \<open>x\<close> is the first module that fits among \<open>r\<close>, its
  previous version (with the step of lines 455 to 457), the previous version of that one
  and so on, or nothing when the version \<open>none\<close> comes first. Excluded modules do not
  fit, and \<open>rdeps\<close> holds real requirements.
\<close>

definition fits :: "'e Reqs \<Rightarrow> (string \<rightharpoonup> string) \<Rightarrow> module_version \<Rightarrow> bool" where
  "fits reqs mx m \<longleftrightarrow>
     (\<forall>x \<in> required_closure reqs m.
        under_cap reqs mx x \<and> (\<exists>list. Reqs_Required reqs x = Inr list))"

inductive lowered ::
  "'e Reqs \<Rightarrow> (string \<rightharpoonup> string) \<Rightarrow> module_version \<Rightarrow> module_version option \<Rightarrow> bool"
  for reqs :: "'e Reqs" and mx :: "string \<rightharpoonup> string" where
  keep: "fits reqs mx r \<Longrightarrow> lowered reqs mx r (Some r)"
| drop: "\<not> fits reqs mx r \<Longrightarrow> Reqs_Previous reqs r = Inr p \<Longrightarrow>
         Version (clamp_previous reqs mx r p) = none \<Longrightarrow> lowered reqs mx r None"
| lower: "\<not> fits reqs mx r \<Longrightarrow> Reqs_Previous reqs r = Inr p \<Longrightarrow>
          Version (clamp_previous reqs mx r p) \<noteq> none \<Longrightarrow>
          lowered reqs mx (clamp_previous reqs mx r p) res \<Longrightarrow> lowered reqs mx r res"

definition dg_excl :: "'e Reqs \<Rightarrow> (string \<rightharpoonup> string) \<Rightarrow> dg_state \<Rightarrow> bool" where
  "dg_excl reqs mx st \<longleftrightarrow>
     (\<forall>x \<in> excluded st. \<not> fits reqs mx x) \<and>
     (\<forall>r p. p \<in> set (rdeps st r) \<longrightarrow> (\<exists>list. Reqs_Required reqs p = Inr list \<and> r \<in> set list))"

subsection \<open>What the search for the error maintains\<close>

text \<open>
  The pointers the search has seen are the root's and those with a parent in \<open>neededBy\<close>.
  Those that have left the queue point to a node without error, whose neighbours have all
  been seen.
\<close>

definition seen :: "(module_version \<rightharpoonup> 'e modGraphNode) \<Rightarrow> module_version \<Rightarrow>
    ('e node_ptr \<Rightarrow> 'e node_ptr) \<Rightarrow> 'e node_ptr set" where
  "seen g target neededBy = insert (g target) {p. neededBy p \<noteq> None}"

definition search_inv :: "(module_version \<rightharpoonup> 'e modGraphNode) \<Rightarrow> module_version \<Rightarrow>
    ('e node_ptr \<Rightarrow> 'e node_ptr) \<Rightarrow> 'e node_ptr list \<Rightarrow> bool" where
  "search_inv g target neededBy q \<longleftrightarrow>
     set q \<subseteq> seen g target neededBy \<and>
     (\<forall>p \<in> seen g target neededBy - set q.
        \<exists>n. p = Some n \<and> node_err n = None \<and>
            (\<forall>x \<in> set (neighbors n). g x \<in> seen g target neededBy))"

text \<open>
  To show that the search finds a shortest path: a chain is a list of modules in which each
  is among the successors of the one before. The search runs on a finite graph in which
  every neighbour has a node, every node is stored under its own module, and no node has
  the root as a neighbour. The modules discovered are the root and those whose node has a
  parent in \<open>neededBy\<close>. The invariant speaks of the modules \<open>ks\<close> whose nodes are in
  the queue and of the level \<open>lev\<close> of each discovered module, its distance from the root:
  a parent is one level above, the modules that have left the queue have no error and only
  discovered neighbours, at most one level below, and the queue is ordered by level, within
  one level of its head and not above what has left it.
\<close>

fun chain :: "('a \<Rightarrow> 'a list) \<Rightarrow> 'a list \<Rightarrow> bool" where
  "chain succ [] = True"
| "chain succ [m] = True"
| "chain succ (m # m' # ms) = (m' \<in> set (succ m) \<and> chain succ (m' # ms))"

definition graph_succ :: "(module_version \<rightharpoonup> 'e modGraphNode) \<Rightarrow> module_version \<Rightarrow> module_version list" where
  "graph_succ g m = (case g m of None \<Rightarrow> [] | Some n \<Rightarrow> neighbors n)"

definition search_graph :: "(module_version \<rightharpoonup> 'e modGraphNode) \<Rightarrow> module_version \<Rightarrow> bool" where
  "search_graph g target \<longleftrightarrow>
     finite (dom g) \<and> closed_graph g \<and> target \<in> dom g \<and>
     (\<forall>m n. g m = Some n \<longrightarrow> node_m n = m \<and> target \<notin> set (neighbors n))"

definition discovered ::
  "(module_version \<rightharpoonup> 'e modGraphNode) \<Rightarrow> module_version \<Rightarrow> ('e node_ptr \<Rightarrow> 'e node_ptr) \<Rightarrow>
     module_version set" where
  "discovered g target neededBy = {m \<in> dom g. m = target \<or> neededBy (g m) \<noteq> None}"

definition bfs_inv ::
  "(module_version \<rightharpoonup> 'e modGraphNode) \<Rightarrow> module_version \<Rightarrow> ('e node_ptr \<Rightarrow> 'e node_ptr) \<Rightarrow>
     module_version list \<Rightarrow> (module_version \<Rightarrow> nat) \<Rightarrow> bool" where
  "bfs_inv g target neededBy ks lev \<longleftrightarrow>
     set ks \<subseteq> discovered g target neededBy \<and> neededBy (g target) = None \<and> lev target = 0 \<and>
     (\<forall>m \<in> dom g. \<forall>p. neededBy (g m) = Some p \<longrightarrow>
        (\<exists>u \<in> discovered g target neededBy.
            g u = Some p \<and> m \<in> set (neighbors p) \<and> lev m = Suc (lev u))) \<and>
     (\<forall>u \<in> discovered g target neededBy - set ks.
        node_err (the (g u)) = None \<and>
        (\<forall>x \<in> set (graph_succ g u). x \<in> discovered g target neededBy \<and> lev x \<le> Suc (lev u))) \<and>
     sorted (map lev ks) \<and> (\<forall>m \<in> set ks. lev m \<le> Suc (lev (hd ks))) \<and>
     (\<forall>u \<in> discovered g target neededBy - set ks. \<forall>m \<in> set ks. lev u \<le> lev m)"

section \<open>Evaluating the functions\<close>

lemma Work_Do_unfold:
  "Work_Do pick f w s =
     (if work_todo w = [] then Some s
      else Work_Do pick f (fold Work_Add (snd (f (fst (Work_take pick w)) s)) (snd (Work_take pick w)))
             (fst (f (fst (Work_take pick w)) s)))"
  by (subst Work_Do.simps) (simp add: split_beta)

lemmas explore_eval = explore_def Work_take_def Work_Add_def Work_init_def
  visit_def register_def visit_upgrade_def put_node_def setErr_def init_state_def none_def
  zero_version_def Let_def Work_Do_unfold

lemmas finalize_eval = finalize_def lookup_str_def none_def zero_version_def Let_def

lemmas find_error_eval = find_error.simps errPath_loop.simps reverse_loop.simps neighbors_def
  NewBuildListError_def zero_version_def Let_def

lemmas Downgrade_eval = Downgrade_def Downgrade_cap_def add_def exclude_def exclude_list.simps
  add_loop.simps previous_loop.simps clamp_previous_def lookup_map_def Let_def

lemmas example_eval = example_reqs_def table_Required_def table_Previous_def example_Max_def
  version_key_def main_module_def first_item_def none_def

section \<open>The result of \<open>buildList\<close> depends on \<open>Required\<close> and \<open>Max\<close> only\<close>






section \<open>The shape of the results\<close>

lemma collect_Inr:
  "collect reqs target st es acc = Inr l \<Longrightarrow>
     l = acc @ map entry (filter (\<lambda>e. fst e \<noteq> Path target) es)"
proof (induction es arbitrary: acc)
  case Nil
  then show ?case by simp
next
  case (Cons e es)
  obtain p v where e: "e = (p, v)" by (cases e)
  let ?acc = "if p \<noteq> Path target then acc @ [\<lparr>Path = p, Version = v\<rparr>] else acc"
  from Cons.prems have "collect reqs target st es ?acc = Inr l"
    by (simp add: e Let_def split: option.splits if_splits)
  from Cons.IH[OF this] show ?case
    by (simp add: e entry_def)
qed

lemma finalize_Return:
  assumes "finalize reqs target st = Return list"
  shows "list = target # sort_key Path (map entry (filter (\<lambda>e. fst e \<noteq> Path target) (min_map st)))"
    and "lookup_str (min_map st) (Path target) = Version target"
  using assms
  by (auto simp: finalize_def Let_def split: if_splits sum.splits dest!: collect_Inr)

lemma find_error_result:
  assumes "find_error g neededBy q = Some y"
  shows "y = None \<or> (\<exists>e p f. y = Some (Fail (BuildListError e p f))) \<or> y = Some (Panic NilDereference)"
proof (rule find_error.raw_induct[where P = "\<lambda>g neededBy q y.
    y = None \<or> (\<exists>e p f. y = Some (Fail (BuildListError e p f))) \<or> y = Some (Panic NilDereference)", OF _ assms])
  fix fe :: "(module_version \<rightharpoonup> 'a modGraphNode) \<Rightarrow> ('a node_ptr \<Rightarrow> 'a node_ptr) \<Rightarrow> 'a node_ptr list \<Rightarrow>
     (module_version list, 'a) outcome option option"
  fix g neededBy q y
  assume IH: "\<And>g neededBy q y. fe g neededBy q = Some y \<Longrightarrow>
     y = None \<or> (\<exists>e p f. y = Some (Fail (BuildListError e p f))) \<or> y = Some (Panic NilDereference)"
  assume body: "(case q of
        [] \<Rightarrow> Some None
      | ptr # q' \<Rightarrow>
          (case ptr of
             None \<Rightarrow> Some (Some (Panic NilDereference))
           | Some node \<Rightarrow>
               (case node_err node of
                  Some err \<Rightarrow>
                    (case errPath_loop neededBy (neededBy (Some node)) node [node_m node] Map.empty of
                       None \<Rightarrow> None
                     | Some (errPath, pathUpgrade) \<Rightarrow>
                         Some (Some (Fail (NewBuildListError err
                           (reverse_loop 0 (length errPath - 1) errPath) (isUpgrade pathUpgrade)))))
                | None \<Rightarrow>
                    (case enqueue g node (neighbors node) (neededBy, q') of
                       (neededBy', q'') \<Rightarrow> fe g neededBy' q'')))) = Some y"
  show "y = None \<or> (\<exists>e p f. y = Some (Fail (BuildListError e p f))) \<or> y = Some (Panic NilDereference)"
    using body IH
    by (auto simp: NewBuildListError_def split: list.splits option.splits prod.splits)
qed

lemma buildList_Return:
  assumes "buildList pick target reqs upgrade = Some (Return list)"
  shows "\<exists>st. explore pick target reqs upgrade = Some st \<and> finalize reqs target st = Return list"
  using assms
  by (auto simp: buildList_def split: option.splits if_splits dest: find_error_result)

section \<open>\<open>UpgradeAll\<close> and the root\<close>



section \<open>\<open>Upgrade\<close> and the root\<close>

lemma Upgrade_loop_other:
  "\<forall>u \<in> set us. Path u \<noteq> p \<Longrightarrow>
     snd (Upgrade_loop reqs pathInList us (list, upgradeTo)) p = upgradeTo p"
  by (induction us arbitrary: list upgradeTo) (auto split: option.splits)

lemma Upgrade_loop_single:
  "filter (\<lambda>u'. Path u' = p) us = [u] \<Longrightarrow> upgradeTo p = None \<Longrightarrow>
     snd (Upgrade_loop reqs pathInList us (list, upgradeTo)) p = Some (Version u)"
proof (induction us arbitrary: list upgradeTo)
  case Nil
  then show ?case by simp
next
  case (Cons a us)
  show ?case
  proof (cases "Path a = p")
    case True
    with Cons.prems have a: "a = u" and rest: "\<forall>u' \<in> set us. Path u' \<noteq> p"
      by (auto simp: filter_empty_conv)
    show ?thesis
      using Cons.prems(2) True a by (simp add: Upgrade_loop_other[OF rest])
  next
    case False
    with Cons.prems have "filter (\<lambda>u'. Path u' = p) us = [u]" by simp
    note IH = Cons.IH[OF this]
    have "(case upgradeTo (Path a) of
             Some prev \<Rightarrow> upgradeTo(Path a \<mapsto> Reqs_Max reqs prev (Version a))
           | None \<Rightarrow> upgradeTo(Path a \<mapsto> Version a)) p = None"
      using Cons.prems(2) False by (simp split: option.splits)
    then show ?thesis by (simp add: IH)
  qed
qed

text \<open>
  Claim C10, as stated: for every entry \<open>u\<close> of the modules to upgrade with the root's path
  and another version than the root's, the upgrade function built by \<open>Upgrade\<close> maps the
  root to \<open>{root.path, u.version}\<close>. This fails when two entries have the root's path: the
  map \<open>upgradeTo\<close> keeps the \<open>Max\<close> of their versions, here \<open>3\<close> for the entry of version
  \<open>2\<close>.
\<close>

theorem Upgrade_upgrade_root_counterexample:
  "\<lparr>Path = ''main'', Version = ''2''\<rparr>
     \<in> set [\<lparr>Path = ''main'', Version = ''2''\<rparr>, \<lparr>Path = ''main'', Version = ''3''\<rparr>] \<and>
   Path \<lparr>Path = ''main'', Version = ''2''\<rparr> = Path main_module \<and>
   Version \<lparr>Path = ''main'', Version = ''2''\<rparr> \<noteq> Version main_module \<and>
   Upgrade_upgrade (snd (Upgrade_loop (example_reqs [] []) {}
       [\<lparr>Path = ''main'', Version = ''2''\<rparr>, \<lparr>Path = ''main'', Version = ''3''\<rparr>] ([], Map.empty)))
       main_module
     \<noteq> (Inr \<lparr>Path = Path main_module, Version = Version \<lparr>Path = ''main'', Version = ''2''\<rparr>\<rparr>
          :: string + module_version)"
  by (simp add: example_eval Upgrade_upgrade_def)

text \<open>
  Claim C10, amended: \<open>Upgrade\<close> has no exemption for the root. When exactly one entry
  \<open>u\<close> of the modules to upgrade has the root's path, and its version is not the root's,
  the upgrade function built by \<open>Upgrade\<close> maps the root to \<open>{root.path, u.version}\<close>,
  which is not the root.
\<close>

theorem Upgrade_upgrade_root:
  assumes "filter (\<lambda>u'. Path u' = Path target) upgrade = [u]"
      and "Version u \<noteq> Version target"
  shows "Upgrade_upgrade (snd (Upgrade_loop reqs pathInList upgrade (list, Map.empty))) target
           = Inr \<lparr>Path = Path target, Version = Version u\<rparr>
         \<and> \<lparr>Path = Path target, Version = Version u\<rparr> \<noteq> target"
proof -
  have "snd (Upgrade_loop reqs pathInList upgrade (list, Map.empty)) (Path target) = Some (Version u)"
    using assms(1) by (rule Upgrade_loop_single) simp
  moreover have "\<lparr>Path = Path target, Version = Version u\<rparr> \<noteq> target"
    using assms(2) by (cases target) auto
  ultimately show ?thesis by (simp add: Upgrade_upgrade_def)
qed

theorem Upgrade_upgrade_root_witness:
  "filter (\<lambda>u'. Path u' = Path main_module)
      [\<lparr>Path = ''main'', Version = ''2''\<rparr>, \<lparr>Path = ''B'', Version = ''3''\<rparr>]
      = [\<lparr>Path = ''main'', Version = ''2''\<rparr>] \<and>
   Version \<lparr>Path = ''main'', Version = ''2''\<rparr> \<noteq> Version main_module \<and>
   Upgrade_upgrade (snd (Upgrade_loop (example_reqs [] []) {}
       [\<lparr>Path = ''main'', Version = ''2''\<rparr>, \<lparr>Path = ''B'', Version = ''3''\<rparr>] ([], Map.empty)))
       main_module
     = (Inr \<lparr>Path = ''main'', Version = ''2''\<rparr> :: string + module_version)"
  using Upgrade_upgrade_root[of main_module
      "[\<lparr>Path = ''main'', Version = ''2''\<rparr>, \<lparr>Path = ''B'', Version = ''3''\<rparr>]"
      "\<lparr>Path = ''main'', Version = ''2''\<rparr>" "example_reqs [] []" "{}" "[]"]
  by (simp add: main_module_def)

section \<open>\<open>Downgrade\<close>: a failure of \<open>Previous\<close>\<close>

lemma Downgrade_loop_Fail:
  "Downgrade_loop reqs mx rs out st = Some (Fail err) \<Longrightarrow> \<exists>e. err = ProviderError e"
  by (induction rs arbitrary: out st) (auto split: option.splits sum.splits prod.splits)

text \<open>
  Claim C9, as stated: a failure of \<open>Previous\<close> during \<open>Downgrade\<close> ends in a typed
  build-list error. Here the root requires \<open>A@2\<close>, the module \<open>A\<close> is to be downgraded to
  version \<open>1\<close> and \<open>Previous(A@2)\<close> fails with \<open>E\<close>: \<open>Downgrade\<close> returns \<open>E\<close> itself.
\<close>

theorem Downgrade_Previous_error_counterexample:
  "Downgrade main_module
     (example_reqs [(main_module, Inr [\<lparr>Path = ''A'', Version = ''2''\<rparr>])]
        [(\<lparr>Path = ''A'', Version = ''2''\<rparr>, Inl ''E'')])
     [\<lparr>Path = ''A'', Version = ''1''\<rparr>] = Some (Fail (ProviderError ''E''))"
  by (simp add: Downgrade_eval example_eval)

text \<open>
  Claim C9, amended: when \<open>Previous\<close> fails on an excluded module, the loop of line 441
  ends at once with that error, \<open>Downgrade\<close> returns it as it is without looking at the
  requirements still to come, and no error returned by \<open>Downgrade\<close> is a build-list
  error.
\<close>

theorem Downgrade_Previous_error:
  "(r \<in> excluded st \<longrightarrow> Reqs_Previous reqs r = Inl e \<longrightarrow>
      previous_loop reqs mx r st = Some (Inl e)) \<and>
   (add reqs mx r st0 = Some st1 \<longrightarrow> previous_loop reqs mx r st1 = Some (Inl e) \<longrightarrow>
      Downgrade_loop reqs mx (r # rs) out st0 = Some (Fail (ProviderError e))) \<and>
   (Downgrade target reqs downgrade = Some (Fail err) \<longrightarrow> (\<exists>e'. err = ProviderError e'))"
proof (intro conjI impI)
  assume "r \<in> excluded st" "Reqs_Previous reqs r = Inl e"
  then show "previous_loop reqs mx r st = Some (Inl e)"
    by (subst previous_loop.simps) simp
next
  assume "add reqs mx r st0 = Some st1" "previous_loop reqs mx r st1 = Some (Inl e)"
  then show "Downgrade_loop reqs mx (r # rs) out st0 = Some (Fail (ProviderError e))"
    by simp
next
  assume "Downgrade target reqs downgrade = Some (Fail err)"
  then show "\<exists>e'. err = ProviderError e'"
    by (auto simp: Downgrade_def Let_def split: sum.splits dest: Downgrade_loop_Fail)
qed

theorem Downgrade_Previous_error_witness:
  "\<lparr>Path = ''A'', Version = ''2''\<rparr> \<in> excluded \<lparr>added = {\<lparr>Path = ''A'', Version = ''2''\<rparr>},
       rdeps = (\<lambda>_. []), excluded = {\<lparr>Path = ''A'', Version = ''2''\<rparr>}\<rparr> \<and>
   Reqs_Previous
     (example_reqs [(main_module, Inr [\<lparr>Path = ''A'', Version = ''2''\<rparr>, \<lparr>Path = ''B'', Version = ''1''\<rparr>])]
        [(\<lparr>Path = ''A'', Version = ''2''\<rparr>, Inl ''E'')])
     \<lparr>Path = ''A'', Version = ''2''\<rparr> = Inl ''E'' \<and>
   previous_loop
     (example_reqs [(main_module, Inr [\<lparr>Path = ''A'', Version = ''2''\<rparr>, \<lparr>Path = ''B'', Version = ''1''\<rparr>])]
        [(\<lparr>Path = ''A'', Version = ''2''\<rparr>, Inl ''E'')])
     [''A'' \<mapsto> ''1''] \<lparr>Path = ''A'', Version = ''2''\<rparr>
     \<lparr>added = {\<lparr>Path = ''A'', Version = ''2''\<rparr>}, rdeps = (\<lambda>_. []),
      excluded = {\<lparr>Path = ''A'', Version = ''2''\<rparr>}\<rparr> = Some (Inl ''E'') \<and>
   add
     (example_reqs [(main_module, Inr [\<lparr>Path = ''A'', Version = ''2''\<rparr>, \<lparr>Path = ''B'', Version = ''1''\<rparr>])]
        [(\<lparr>Path = ''A'', Version = ''2''\<rparr>, Inl ''E'')])
     [''A'' \<mapsto> ''1''] \<lparr>Path = ''A'', Version = ''2''\<rparr>
     \<lparr>added = {}, rdeps = (\<lambda>_. []), excluded = {}\<rparr>
     = Some \<lparr>added = {\<lparr>Path = ''A'', Version = ''2''\<rparr>}, rdeps = (\<lambda>_. []),
        excluded = {\<lparr>Path = ''A'', Version = ''2''\<rparr>}\<rparr> \<and>
   Downgrade_loop
     (example_reqs [(main_module, Inr [\<lparr>Path = ''A'', Version = ''2''\<rparr>, \<lparr>Path = ''B'', Version = ''1''\<rparr>])]
        [(\<lparr>Path = ''A'', Version = ''2''\<rparr>, Inl ''E'')])
     [''A'' \<mapsto> ''1'']
     [\<lparr>Path = ''A'', Version = ''2''\<rparr>, \<lparr>Path = ''B'', Version = ''1''\<rparr>] [main_module]
     \<lparr>added = {}, rdeps = (\<lambda>_. []), excluded = {}\<rparr> = Some (Fail (ProviderError ''E'')) \<and>
   Downgrade main_module
     (example_reqs [(main_module, Inr [\<lparr>Path = ''A'', Version = ''2''\<rparr>, \<lparr>Path = ''B'', Version = ''1''\<rparr>])]
        [(\<lparr>Path = ''A'', Version = ''2''\<rparr>, Inl ''E'')])
     [\<lparr>Path = ''A'', Version = ''1''\<rparr>] = Some (Fail (ProviderError ''E'')) \<and>
   (\<exists>e'. ProviderError ''E'' = (ProviderError e' :: string go_error))"
proof -
  let ?A2 = "\<lparr>Path = ''A'', Version = ''2''\<rparr>"
  let ?reqs = "example_reqs [(main_module, Inr [?A2, \<lparr>Path = ''B'', Version = ''1''\<rparr>])] [(?A2, Inl ''E'')]"
  let ?st1 = "\<lparr>added = {?A2}, rdeps = (\<lambda>_. []), excluded = {?A2}\<rparr>"
  have 1: "?A2 \<in> excluded ?st1" by simp
  have 2: "Reqs_Previous ?reqs ?A2 = Inl ''E''" by (simp add: example_eval)
  have 3: "add ?reqs [''A'' \<mapsto> ''1''] ?A2 \<lparr>added = {}, rdeps = (\<lambda>_. []), excluded = {}\<rparr> = Some ?st1"
    by (simp add: Downgrade_eval example_eval)
  have 4: "Downgrade main_module ?reqs [\<lparr>Path = ''A'', Version = ''1''\<rparr>] = Some (Fail (ProviderError ''E''))"
    by (simp add: Downgrade_eval example_eval)
  note inst = Downgrade_Previous_error[where r = ?A2 and st = ?st1 and reqs = ?reqs and e = "''E''"
      and mx = "[''A'' \<mapsto> ''1'']" and ?st0.0 = "\<lparr>added = {}, rdeps = (\<lambda>_. []), excluded = {}\<rparr>"
      and ?st1.0 = ?st1 and rs = "[\<lparr>Path = ''B'', Version = ''1''\<rparr>]" and out = "[main_module]"
      and target = main_module and downgrade = "[\<lparr>Path = ''A'', Version = ''1''\<rparr>]"
      and err = "ProviderError ''E''"]
  from inst 1 2 3 4 show ?thesis by simp
qed

section \<open>The version \<open>none\<close> during the exploration\<close>



section \<open>Invariants of the exploration\<close>

lemma Work_Do_rule:
  fixes pick :: "'a list \<Rightarrow> nat" and f :: "'a \<Rightarrow> 's \<Rightarrow> 's \<times> 'a list"
  assumes run: "Work_Do pick f w s = Some s'"
      and init: "I w s"
      and step: "\<And>w s. I w s \<Longrightarrow> work_todo w \<noteq> [] \<Longrightarrow>
         I (fold Work_Add (snd (f (fst (Work_take pick w)) s)) (snd (Work_take pick w)))
           (fst (f (fst (Work_take pick w)) s))"
  shows "\<exists>w'. I w' s' \<and> work_todo w' = []"
proof -
  have "pick' = pick \<longrightarrow> f' = f \<longrightarrow> I w s \<longrightarrow> (\<exists>w'. I w' s' \<and> work_todo w' = [])"
    if "Work_Do pick' f' w s = Some s'" for pick' f'
    using that
  proof (rule Work_Do.raw_induct[where P = "\<lambda>pick' f' w s s'.
       pick' = pick \<longrightarrow> f' = f \<longrightarrow> I w s \<longrightarrow> (\<exists>w'. I w' s' \<and> work_todo w' = [])", rotated])
    fix wd :: "('a list \<Rightarrow> nat) \<Rightarrow> ('a \<Rightarrow> 's \<Rightarrow> 's \<times> 'a list) \<Rightarrow> 'a Work \<Rightarrow> 's \<Rightarrow> 's option"
    fix pick' f' w s s'
    assume IH: "\<And>pick' f' w s s'. wd pick' f' w s = Some s' \<Longrightarrow>
       pick' = pick \<longrightarrow> f' = f \<longrightarrow> I w s \<longrightarrow> (\<exists>w'. I w' s' \<and> work_todo w' = [])"
    assume body: "(if work_todo w = [] then Some s
      else
        (case Work_take pick' w of (item, w1) \<Rightarrow>
          (case f' item s of (s', new) \<Rightarrow>
             wd pick' f' (fold Work_Add new w1) s'))) = Some s'"
    show "pick' = pick \<longrightarrow> f' = f \<longrightarrow> I w s \<longrightarrow> (\<exists>w'. I w' s' \<and> work_todo w' = [])"
    proof (intro impI)
      assume eq: "pick' = pick" "f' = f" and inv: "I w s"
      show "\<exists>w'. I w' s' \<and> work_todo w' = []"
      proof (cases "work_todo w = []")
        case True
        with body inv show ?thesis by auto
      next
        case False
        with body have "wd pick f (fold Work_Add (snd (f (fst (Work_take pick w)) s)) (snd (Work_take pick w)))
           (fst (f (fst (Work_take pick w)) s)) = Some s'"
          by (simp add: eq split_beta)
        from IH[OF this] step[OF inv False] show ?thesis by simp
      qed
    qed
  qed
  with run init show ?thesis by blast
qed

lemma visit_eq:
  "visit reqs upgrade m st =
     (st\<lparr>modGraph := (modGraph st)(m \<mapsto> visit_node reqs upgrade m),
         min_map := min_map (register reqs m st),
         haveErr := haveErr st \<or> node_err (visit_node reqs upgrade m) \<noteq> None\<rparr>,
      visit_adds reqs upgrade m)"
  by (auto simp: visit_def visit_node_def visit_adds_def visit_upgrade_def register_def put_node_def
        setErr_def init_state_def Let_def split: sum.splits option.splits)

lemma visit_node_m [simp]: "node_m (visit_node reqs upgrade m) = m"
  by (auto simp: visit_def visit_node_def visit_upgrade_def register_def put_node_def
        setErr_def init_state_def Let_def split: sum.splits option.splits)

lemma visit_node_required:
  "node_required (visit_node reqs upgrade m) =
     (if Version m \<noteq> none then (case Reqs_Required reqs m of Inl e \<Rightarrow> [] | Inr rs \<Rightarrow> rs) else [])"
  by (auto simp: visit_def visit_node_def visit_upgrade_def register_def put_node_def
        setErr_def init_state_def Let_def split: sum.splits option.splits)

lemma visit_adds_None:
  "visit_adds reqs None m =
     (if Version m \<noteq> none then (case Reqs_Required reqs m of Inl e \<Rightarrow> [] | Inr rs \<Rightarrow> rs) else [])"
  by (auto simp: visit_def visit_adds_def visit_upgrade_def register_def put_node_def
        setErr_def init_state_def Let_def split: sum.splits option.splits)

lemma visit_node_None:
  "visit_node reqs None m =
     \<lparr>node_m = m, node_required = visit_adds reqs None m, node_upgrade = zero_version,
      node_err = (if Version m \<noteq> none then (case Reqs_Required reqs m of Inl e \<Rightarrow> Some e | Inr rs \<Rightarrow> None)
                  else None)\<rparr>"
  by (auto simp: visit_def visit_node_def visit_adds_def visit_upgrade_def register_def put_node_def
        setErr_def init_state_def Let_def split: sum.splits option.splits)

lemma neighbors_visit_node:
  "set (neighbors (visit_node reqs upgrade m)) \<subseteq> set (visit_adds reqs upgrade m)"
  by (auto simp: visit_def visit_node_def visit_adds_def visit_upgrade_def register_def put_node_def
        setErr_def init_state_def Let_def neighbors_def zero_version_def split: sum.splits option.splits)

lemma required_visit_node:
  "set (node_required (visit_node reqs upgrade m)) \<subseteq> set (visit_adds reqs upgrade m)"
  by (auto simp: visit_def visit_node_def visit_adds_def visit_upgrade_def register_def put_node_def
        setErr_def init_state_def Let_def split: sum.splits option.splits)

lemma Work_take_facts:
  assumes "work_inv w" "work_todo w \<noteq> []"
  shows "fst (Work_take pick w) \<in> set (work_todo w)"
    and "work_added (snd (Work_take pick w)) = work_added w"
    and "set (work_todo (snd (Work_take pick w))) = set (work_todo w) - {fst (Work_take pick w)}"
    and "distinct (work_todo (snd (Work_take pick w)))"
proof -
  let ?xs = "work_todo w"
  let ?i = "pick ?xs mod length ?xs"
  have i: "?i < length ?xs" using assms(2) by simp
  have xs: "?xs = take ?i ?xs @ ?xs ! ?i # drop (Suc ?i) ?xs"
    by (rule id_take_nth_drop[OF i])
  have d: "distinct ?xs" using assms(1) by (simp add: work_inv_def)
  have d': "distinct (take ?i ?xs @ ?xs ! ?i # drop (Suc ?i) ?xs)" using d xs by metis
  show "fst (Work_take pick w) \<in> set (work_todo w)"
    using i by (simp add: Work_take_def Let_def)
  show "work_added (snd (Work_take pick w)) = work_added w"
    by (simp add: Work_take_def Let_def)
  have "set ?xs = set (take ?i ?xs @ ?xs ! ?i # drop (Suc ?i) ?xs)" using xs by metis
  with d' show "set (work_todo (snd (Work_take pick w))) = set (work_todo w) - {fst (Work_take pick w)}"
    by (auto simp: Work_take_def Let_def)
  from d' show "distinct (work_todo (snd (Work_take pick w)))"
    by (simp add: Work_take_def Let_def)
qed

lemma fold_Work_Add:
  "work_added (fold Work_Add new w) = work_added w \<union> set new"
  "set (work_todo (fold Work_Add new w)) = set (work_todo w) \<union> (set new - work_added w)"
  by (induction new arbitrary: w; auto simp: Work_Add_def)+

lemma fold_Work_Add_distinct:
  "distinct (work_todo w) \<Longrightarrow> set (work_todo w) \<subseteq> work_added w \<Longrightarrow>
     distinct (work_todo (fold Work_Add new w))"
proof (induction new arbitrary: w)
  case Nil
  then show ?case by simp
next
  case (Cons a new)
  have "distinct (work_todo (Work_Add a w))" "set (work_todo (Work_Add a w)) \<subseteq> work_added (Work_Add a w)"
    using Cons.prems by (auto simp: Work_Add_def)
  from Cons.IH[OF this] show ?case by simp
qed

lemma work_inv_step:
  assumes "work_inv w" "work_todo w \<noteq> []"
  shows "work_inv (fold Work_Add new (snd (Work_take pick w)))"
proof -
  note tk = Work_take_facts[OF assms, of pick]
  have "set (work_todo (snd (Work_take pick w))) \<subseteq> work_added (snd (Work_take pick w))"
    using tk assms(1) by (auto simp: work_inv_def)
  from fold_Work_Add_distinct[OF tk(4) this, of new] this assms(1) tk(2)
  show ?thesis
    by (auto simp: work_inv_def fold_Work_Add)
qed

lemma explore_inv_init: "explore_inv target reqs upgrade (Work_Add target Work_init) init_state"
  by (simp add: explore_inv_def work_inv_def Work_Add_def Work_init_def init_state_def)

lemma explore_inv_step:
  assumes inv: "explore_inv target reqs upgrade w st" and ne: "work_todo w \<noteq> []"
  shows "explore_inv target reqs upgrade
           (fold Work_Add (snd (visit reqs upgrade (fst (Work_take pick w)) st)) (snd (Work_take pick w)))
           (fst (visit reqs upgrade (fst (Work_take pick w)) st))"
proof -
  let ?m = "fst (Work_take pick w)" and ?w1 = "snd (Work_take pick w)"
  have wi: "work_inv w" using inv by (simp add: explore_inv_def)
  note tk = Work_take_facts[OF wi ne, of pick]
  note fa = fold_Work_Add[of "visit_adds reqs upgrade ?m" ?w1]
  have dom: "dom (modGraph st) = work_added w - set (work_todo w)"
    using inv by (simp add: explore_inv_def)
  have sub: "set (work_todo w) \<subseteq> work_added w" using wi by (simp add: work_inv_def)
  show ?thesis
    unfolding explore_inv_def visit_eq fst_conv snd_conv
  proof (intro conjI)
    show "work_inv (fold Work_Add (visit_adds reqs upgrade ?m) ?w1)"
      by (rule work_inv_step[OF wi ne])
    show "target \<in> work_added (fold Work_Add (visit_adds reqs upgrade ?m) ?w1)"
      using inv by (simp add: fa tk(2,3) explore_inv_def)
    show "dom (modGraph (st\<lparr>modGraph := (modGraph st)(?m \<mapsto> visit_node reqs upgrade ?m),
         min_map := min_map (register reqs ?m st),
         haveErr := haveErr st \<or> node_err (visit_node reqs upgrade ?m) \<noteq> None\<rparr>))
       = work_added (fold Work_Add (visit_adds reqs upgrade ?m) ?w1)
         - set (work_todo (fold Work_Add (visit_adds reqs upgrade ?m) ?w1))"
      using tk(1) sub by (auto simp: fa tk(2,3) dom)
    show "\<forall>m\<in>dom (modGraph (st\<lparr>modGraph := (modGraph st)(?m \<mapsto> visit_node reqs upgrade ?m),
         min_map := min_map (register reqs ?m st),
         haveErr := haveErr st \<or> node_err (visit_node reqs upgrade ?m) \<noteq> None\<rparr>)).
       modGraph (st\<lparr>modGraph := (modGraph st)(?m \<mapsto> visit_node reqs upgrade ?m),
         min_map := min_map (register reqs ?m st),
         haveErr := haveErr st \<or> node_err (visit_node reqs upgrade ?m) \<noteq> None\<rparr>) m
         = Some (visit_node reqs upgrade m) \<and>
       set (visit_adds reqs upgrade m) \<subseteq> work_added (fold Work_Add (visit_adds reqs upgrade ?m) ?w1)"
      using inv tk(1) sub by (auto simp: fa tk(2,3) explore_inv_def)
    show "haveErr (st\<lparr>modGraph := (modGraph st)(?m \<mapsto> visit_node reqs upgrade ?m),
         min_map := min_map (register reqs ?m st),
         haveErr := haveErr st \<or> node_err (visit_node reqs upgrade ?m) \<noteq> None\<rparr>)
       = (\<exists>m\<in>dom (modGraph (st\<lparr>modGraph := (modGraph st)(?m \<mapsto> visit_node reqs upgrade ?m),
         min_map := min_map (register reqs ?m st),
         haveErr := haveErr st \<or> node_err (visit_node reqs upgrade ?m) \<noteq> None\<rparr>)).
           node_err (visit_node reqs upgrade m) \<noteq> None)"
      using inv by (auto simp: explore_inv_def)
  qed
qed

lemma min_map_register:
  "min_map (register reqs m st) =
     (if Version m \<noteq> none \<and>
         (case map_of (min_map st) (Path m) of None \<Rightarrow> True | Some v \<Rightarrow> Reqs_Max reqs v (Version m) \<noteq> v)
      then AList.update (Path m) (Version m) (min_map st) else min_map st)"
  by (simp add: register_def put_node_def split: option.splits)

lemma visit_min_map: "min_map (fst (visit reqs upgrade m st)) = min_map (register reqs m st)"
  by (simp add: visit_eq)

lemma visit_modGraph:
  "modGraph (fst (visit reqs upgrade m st)) = (modGraph st)(m \<mapsto> visit_node reqs upgrade m)"
  by (simp add: visit_eq)

lemma min_inv_init: "min_inv init_state"
  by (simp add: min_inv_def init_state_def)

lemma min_inv_step:
  assumes "min_inv st"
  shows "min_inv (fst (visit reqs upgrade m st))"
proof -
  let ?st' = "fst (visit reqs upgrade m st)"
  have d: "distinct (map fst (min_map st))"
    and v: "\<And>p v. map_of (min_map st) p = Some v \<Longrightarrow> v \<noteq> none \<and> \<lparr>Path = p, Version = v\<rparr> \<in> dom (modGraph st)"
    and e: "\<And>m. m \<in> dom (modGraph st) \<Longrightarrow> Version m \<noteq> none \<Longrightarrow> map_of (min_map st) (Path m) \<noteq> None"
    using assms unfolding min_inv_def by blast+
  have m_eq: "\<lparr>Path = Path m, Version = Version m\<rparr> = m" by simp
  show ?thesis
    unfolding min_inv_def
  proof (intro conjI allI impI ballI)
    show "distinct (map fst (min_map ?st'))"
      using d by (simp add: visit_min_map min_map_register distinct_update)
  next
    fix p v assume "map_of (min_map ?st') p = Some v"
    then have "map_of (min_map st) p = Some v \<or> (Version m \<noteq> none \<and> p = Path m \<and> v = Version m)"
      by (auto simp: visit_min_map min_map_register update_conv' split: if_splits)
    then show "v \<noteq> none" using v by auto
    from \<open>map_of (min_map st) p = Some v \<or> (Version m \<noteq> none \<and> p = Path m \<and> v = Version m)\<close>
    show "\<lparr>Path = p, Version = v\<rparr> \<in> dom (modGraph ?st')"
      using v m_eq by (auto simp: visit_modGraph)
  next
    fix m' assume m': "m' \<in> dom (modGraph ?st')" "Version m' \<noteq> none"
    show "map_of (min_map ?st') (Path m') \<noteq> None"
    proof (cases "m' = m")
      case True
      with m'(2) show ?thesis
        by (auto simp: visit_min_map min_map_register update_conv' split: option.splits)
    next
      case False
      with m' have "map_of (min_map st) (Path m') \<noteq> None"
        using e by (auto simp: visit_modGraph)
      then show ?thesis
        by (auto simp: visit_min_map min_map_register update_conv')
    qed
  qed
qed

lemma lookup_str_register:
  "lookup_str (min_map (register reqs m st)) p =
     (if p = Path m \<and> Version m \<noteq> none \<and>
         (case map_of (min_map st) (Path m) of None \<Rightarrow> True | Some v \<Rightarrow> Reqs_Max reqs v (Version m) \<noteq> v)
      then Version m else lookup_str (min_map st) p)"
  by (simp add: min_map_register lookup_str_def update_conv')

lemma min_max_inv_init: "min_max_inv reqs init_state"
  by (simp add: min_max_inv_def init_state_def)

lemma min_max_inv_step:
  assumes mo: "max_order (Reqs_Max reqs)" and mi: "min_inv st" and mm: "min_max_inv reqs st"
  shows "min_max_inv reqs (fst (visit reqs upgrade m st))"
proof -
  let ?M = "Reqs_Max reqs"
  have sel: "\<And>a b. ?M a b = a \<or> ?M a b = b" and comm: "\<And>a b. ?M a b = ?M b a"
    and assoc: "\<And>a b c. ?M (?M a b) c = ?M a (?M b c)"
    using mo unfolding max_order_def by blast+
  have idem: "?M a a = a" for a using sel[of a a] by auto
  have e: "\<And>m. m \<in> dom (modGraph st) \<Longrightarrow> Version m \<noteq> none \<Longrightarrow> map_of (min_map st) (Path m) \<noteq> None"
    using mi unfolding min_inv_def by blast
  have old: "\<And>m. m \<in> dom (modGraph st) \<Longrightarrow> Version m \<noteq> none \<Longrightarrow>
      ?M (lookup_str (min_map st) (Path m)) (Version m) = lookup_str (min_map st) (Path m)"
    using mm unfolding min_max_inv_def by blast
  show ?thesis
    unfolding min_max_inv_def visit_min_map visit_modGraph
  proof (intro ballI impI)
    fix m' assume m': "m' \<in> dom ((modGraph st)(m \<mapsto> visit_node reqs upgrade m))" "Version m' \<noteq> none"
    let ?upd = "Version m \<noteq> none \<and>
         (case map_of (min_map st) (Path m) of None \<Rightarrow> True | Some v \<Rightarrow> ?M v (Version m) \<noteq> v)"
    show "?M (lookup_str (min_map (register reqs m st)) (Path m')) (Version m')
            = lookup_str (min_map (register reqs m st)) (Path m')"
    proof (cases "Path m' = Path m \<and> ?upd")
      case False
      then have lk: "lookup_str (min_map (register reqs m st)) (Path m') = lookup_str (min_map st) (Path m')"
        by (auto simp: lookup_str_register)
      show ?thesis
      proof (cases "m' = m")
        case True
        with False m'(2) obtain v where v: "map_of (min_map st) (Path m) = Some v" "?M v (Version m) = v"
          by (auto split: option.splits)
        then show ?thesis using True lk by (simp add: lookup_str_def)
      next
        case False
        with m' old show ?thesis by (auto simp: lk)
      qed
    next
      case True
      then have lk: "lookup_str (min_map (register reqs m st)) (Path m') = Version m"
        by (auto simp: lookup_str_register)
      show ?thesis
      proof (cases "m' = m")
        case True
        then show ?thesis using lk by (simp add: idem)
      next
        case False
        with m' have in_old: "m' \<in> dom (modGraph st)" by auto
        from e[OF in_old m'(2)] True obtain v where v: "map_of (min_map st) (Path m) = Some v"
          by auto
        with True have "?M v (Version m) \<noteq> v" by auto
        with sel[of v "Version m"] have vm: "?M v (Version m) = Version m" by auto
        from old[OF in_old m'(2)] True v have vm': "?M v (Version m') = v"
          by (simp add: lookup_str_def)
        have "?M (Version m) (Version m') = ?M (?M (Version m) v) (Version m')"
          using vm comm[of v "Version m"] by simp
        also have "\<dots> = ?M (Version m) (?M v (Version m'))" by (rule assoc)
        also have "\<dots> = Version m" using vm' vm comm[of v "Version m"] by simp
        finally show ?thesis by (simp add: lk)
      qed
    qed
  qed
qed

lemma root_inv_init: "root_inv target reqs (Work_Add target Work_init) init_state"
  by (simp add: root_inv_def Work_Add_def Work_init_def init_state_def)

lemma root_inv_step:
  assumes ei: "explore_inv target reqs upgrade w st" and mi: "min_inv st"
      and ri: "root_inv target reqs w st" and ne: "work_todo w \<noteq> []"
  shows "root_inv target reqs
           (fold Work_Add (snd (visit reqs upgrade (fst (Work_take pick w)) st)) (snd (Work_take pick w)))
           (fst (visit reqs upgrade (fst (Work_take pick w)) st))"
proof -
  let ?m = "fst (Work_take pick w)"
  let ?st' = "fst (visit reqs upgrade ?m st)"
  let ?M = "Reqs_Max reqs"
  have wi: "work_inv w" using ei by (simp add: explore_inv_def)
  note tk = Work_take_facts[OF wi ne, of pick]
  have dom: "dom (modGraph st) = work_added w - set (work_todo w)"
    using ei by (simp add: explore_inv_def)
  have m_new: "?m \<notin> dom (modGraph st)" using tk(1) dom by auto
  have vals: "\<And>p v. map_of (min_map st) p = Some v \<Longrightarrow> v \<noteq> none"
    and ex: "\<And>m. m \<in> dom (modGraph st) \<Longrightarrow> Version m \<noteq> none \<Longrightarrow> map_of (min_map st) (Path m) \<noteq> None"
    using mi unfolding min_inv_def by blast+
  have lk_ne: "lookup_str (min_map st) p \<noteq> none" for p
    using vals[of p] by (auto simp: lookup_str_def none_def split: option.splits)
  from ri consider
      (start) "modGraph st = Map.empty" "min_map st = []" "work_todo w = [target]"
    | (run) "target \<in> dom (modGraph st)"
        "lookup_str (min_map st) (Path target) = Version target \<longrightarrow>
           (\<forall>m \<in> dom (modGraph st). Path m = Path target \<longrightarrow> Version m \<noteq> none \<longrightarrow> m \<noteq> target \<longrightarrow>
              ?M (Version target) (Version m) = Version target)"
        "(\<forall>v. ?M (Version target) v = Version target) \<longrightarrow> Version target \<noteq> none \<longrightarrow>
           lookup_str (min_map st) (Path target) = Version target"
    unfolding root_inv_def by blast
  then have "target \<in> dom (modGraph ?st') \<and>
      (lookup_str (min_map ?st') (Path target) = Version target \<longrightarrow>
         (\<forall>m \<in> dom (modGraph ?st'). Path m = Path target \<longrightarrow> Version m \<noteq> none \<longrightarrow> m \<noteq> target \<longrightarrow>
            ?M (Version target) (Version m) = Version target)) \<and>
      ((\<forall>v. ?M (Version target) v = Version target) \<longrightarrow> Version target \<noteq> none \<longrightarrow>
         lookup_str (min_map ?st') (Path target) = Version target)"
  proof cases
    case start
    with tk(1) have m: "?m = target" by simp
    show ?thesis
      using start(1,2)
      by (auto simp: m visit_modGraph visit_min_map lookup_str_register)
  next
    case run
    from run(1) m_new have mt: "?m \<noteq> target" by auto
    show ?thesis
    proof (intro conjI impI ballI)
      show "target \<in> dom (modGraph ?st')" using run(1) by (simp add: visit_modGraph)
    next
      fix m'
      assume lk': "lookup_str (min_map ?st') (Path target) = Version target"
        and m': "m' \<in> dom (modGraph ?st')" "Path m' = Path target" "Version m' \<noteq> none" "m' \<noteq> target"
      have vt: "Version target \<noteq> none" using lk' m'
      proof -
        have "lookup_str (min_map ?st') (Path target) \<noteq> none"
          using lk_ne[of "Path target"] m'
          by (auto simp: visit_min_map lookup_str_register)
        with lk' show ?thesis by simp
      qed
      from ex[OF run(1) vt] obtain v where v: "map_of (min_map st) (Path target) = Some v" by auto
      show "?M (Version target) (Version m') = Version target"
      proof (cases "Path ?m = Path target \<and> Version ?m \<noteq> none")
        case False
        then have "lookup_str (min_map st) (Path target) = Version target"
          using lk' by (auto simp: visit_min_map lookup_str_register split: if_splits)
        moreover have "m' \<in> dom (modGraph st)" using m' False by (auto simp: visit_modGraph)
        ultimately show ?thesis using run(2) m' by blast
      next
        case True
        then have vne: "Version ?m \<noteq> Version target" using mt
          by (metis module_version.equality old.unit.exhaust)
        have noupd: "?M v (Version ?m) = v"
          using lk' True v vne by (auto simp: visit_min_map lookup_str_register split: if_splits)
        have "\<not> (case map_of (min_map st) (Path ?m) of None \<Rightarrow> True | Some v \<Rightarrow> ?M v (Version ?m) \<noteq> v)"
          using True v noupd by simp
        then have old: "lookup_str (min_map st) (Path target) = Version target"
          using lk' by (simp add: visit_min_map lookup_str_register)
        then have vt': "v = Version target" using v by (simp add: lookup_str_def)
        show ?thesis
        proof (cases "m' = ?m")
          case True
          then show ?thesis using noupd vt' by simp
        next
          case False
          then have "m' \<in> dom (modGraph st)" using m' by (auto simp: visit_modGraph)
          with old run(2) m' show ?thesis by blast
        qed
      qed
    next
      assume top: "\<forall>v. ?M (Version target) v = Version target" and vt: "Version target \<noteq> none"
      with run(3) have old: "lookup_str (min_map st) (Path target) = Version target" by blast
      from ex[OF run(1) vt] obtain v where v: "map_of (min_map st) (Path target) = Some v" by auto
      with old have "v = Version target" by (simp add: lookup_str_def)
      with top v old show "lookup_str (min_map ?st') (Path target) = Version target"
        by (auto simp: visit_min_map lookup_str_register)
    qed
  qed
  then show ?thesis unfolding root_inv_def by blast
qed

lemma explore_invs_init:
  "explore_invs target reqs upgrade (Work_Add target Work_init) init_state"
  by (simp add: explore_invs_def explore_inv_init min_inv_init root_inv_init min_max_inv_init)

lemma explore_invs_step:
  assumes "explore_invs target reqs upgrade w s" "work_todo w \<noteq> []"
  shows "explore_invs target reqs upgrade
          (fold Work_Add (snd (visit reqs upgrade (fst (Work_take pick w)) s)) (snd (Work_take pick w)))
          (fst (visit reqs upgrade (fst (Work_take pick w)) s))"
  using assms unfolding explore_invs_def
  by (auto intro: explore_inv_step min_inv_step root_inv_step min_max_inv_step)

lemma explore_invs:
  assumes "explore pick target reqs upgrade = Some st"
  shows "\<exists>w. explore_invs target reqs upgrade w st \<and> work_todo w = []"
  using assms unfolding explore_def
  by (rule Work_Do_rule) (auto intro: explore_invs_init explore_invs_step)

lemma distinct_map_insort_key:
  "distinct (map f (insort_key f x xs)) \<longleftrightarrow> f x \<notin> f ` set xs \<and> distinct (map f xs)"
  by (induction xs) (auto simp: set_insort_key)

lemma distinct_map_sort_key:
  "distinct (map f (sort_key f xs)) \<longleftrightarrow> distinct (map f xs)"
  by (induction xs) (auto simp: distinct_map_insort_key)

lemma lookup_str_not_none:
  assumes "min_inv st"
  shows "lookup_str (min_map st) p \<noteq> none"
  using assms unfolding min_inv_def
  by (auto simp: lookup_str_def none_def split: option.splits)

section \<open>The shape of the build list\<close>

text \<open>
  Claim C2. When \<open>buildList\<close> returns a list (from \<open>BuildList\<close>, \<open>UpgradeAll\<close> or
  \<open>Upgrade\<close>, with any upgrade function), its first element is the root; the paths of the
  other elements are strictly ascending; these elements are exactly the entries of \<open>min\<close>
  whose path is not the root's; and no element has the version \<open>none\<close>.
\<close>

theorem buildList_shape:
  assumes "buildList pick target reqs upgrade = Some (Return list)"
  shows "\<exists>st. explore pick target reqs upgrade = Some st \<and>
           list \<noteq> [] \<and> hd list = target \<and>
           sorted_wrt (<) (map Path (tl list)) \<and>
           set (tl list) = {\<lparr>Path = p, Version = v\<rparr> | p v.
                              map_of (min_map st) p = Some v \<and> p \<noteq> Path target} \<and>
           (\<forall>m \<in> set list. Version m \<noteq> none)"
proof -
  from buildList_Return[OF assms] obtain st where
    st: "explore pick target reqs upgrade = Some st" and fin: "finalize reqs target st = Return list"
    by blast
  from explore_invs[OF st] have mi: "min_inv st" by (auto simp: explore_invs_def)
  let ?al = "filter (\<lambda>e. fst e \<noteq> Path target) (min_map st)"
  note fr = finalize_Return[OF fin]
  have d: "distinct (map fst (min_map st))" using mi by (simp add: min_inv_def)
  have paths: "map Path (map entry ?al) = map fst ?al" by (simp add: entry_def)
  have "distinct (map fst ?al)" using d by (rule distinct_map_filter)
  then have "distinct (map Path (map entry ?al))" unfolding paths .
  then have "distinct (map Path (sort_key Path (map entry ?al)))"
    unfolding distinct_map_sort_key .
  moreover have "sorted (map Path (sort_key Path (map entry ?al)))" by (rule sorted_sort_key)
  ultimately have sorted: "sorted_wrt (<) (map Path (tl list))"
    by (simp add: fr(1) strict_sorted_iff)
  have set_tl: "set (tl list) = {\<lparr>Path = p, Version = v\<rparr> | p v.
                              map_of (min_map st) p = Some v \<and> p \<noteq> Path target}"
    using d by (auto simp: fr(1) entry_def image_iff)
  have "Version target \<noteq> none" using lookup_str_not_none[OF mi, of "Path target"] fr(2) by simp
  moreover have "\<forall>m \<in> set (tl list). Version m \<noteq> none"
    using mi unfolding set_tl min_inv_def by auto
  ultimately have "\<forall>m \<in> set list. Version m \<noteq> none" by (auto simp: fr(1))
  with st sorted set_tl show ?thesis by (auto simp: fr(1))
qed

theorem buildList_shape_witness:
  "buildList first_item main_module
     (example_reqs [(main_module, Inr [\<lparr>Path = ''C'', Version = ''1''\<rparr>, \<lparr>Path = ''B'', Version = ''1''\<rparr>]),
                    (\<lparr>Path = ''B'', Version = ''1''\<rparr>, Inr [\<lparr>Path = ''C'', Version = ''2''\<rparr>])] [])
     None
     = Some (Return [main_module, \<lparr>Path = ''B'', Version = ''1''\<rparr>, \<lparr>Path = ''C'', Version = ''2''\<rparr>]) \<and>
   (\<exists>st. explore first_item main_module
       (example_reqs [(main_module, Inr [\<lparr>Path = ''C'', Version = ''1''\<rparr>, \<lparr>Path = ''B'', Version = ''1''\<rparr>]),
                    (\<lparr>Path = ''B'', Version = ''1''\<rparr>, Inr [\<lparr>Path = ''C'', Version = ''2''\<rparr>])] [])
       None = Some st \<and>
      hd [main_module, \<lparr>Path = ''B'', Version = ''1''\<rparr>, \<lparr>Path = ''C'', Version = ''2''\<rparr>] = main_module \<and>
      sorted_wrt (<) (map Path (tl [main_module, \<lparr>Path = ''B'', Version = ''1''\<rparr>, \<lparr>Path = ''C'', Version = ''2''\<rparr>])) \<and>
      set (tl [main_module, \<lparr>Path = ''B'', Version = ''1''\<rparr>, \<lparr>Path = ''C'', Version = ''2''\<rparr>])
        = {\<lparr>Path = p, Version = v\<rparr> | p v. map_of (min_map st) p = Some v \<and> p \<noteq> Path main_module} \<and>
      (\<forall>m \<in> set [main_module, \<lparr>Path = ''B'', Version = ''1''\<rparr>, \<lparr>Path = ''C'', Version = ''2''\<rparr>].
         Version m \<noteq> none))"
proof -
  have e: "buildList first_item main_module
     (example_reqs [(main_module, Inr [\<lparr>Path = ''C'', Version = ''1''\<rparr>, \<lparr>Path = ''B'', Version = ''1''\<rparr>]),
                    (\<lparr>Path = ''B'', Version = ''1''\<rparr>, Inr [\<lparr>Path = ''C'', Version = ''2''\<rparr>])] [])
     None
     = Some (Return [main_module, \<lparr>Path = ''B'', Version = ''1''\<rparr>, \<lparr>Path = ''C'', Version = ''2''\<rparr>])"
    by (simp add: buildList_def explore_eval finalize_eval example_eval)
  from buildList_shape[OF e] e show ?thesis by blast
qed

section \<open>The version selected for a path\<close>

lemma visit_adds_reachable:
  "u \<in> reachable reqs target \<Longrightarrow> r \<in> set (visit_adds reqs None u) \<Longrightarrow> r \<in> reachable reqs target"
proof -
  assume u: "u \<in> reachable reqs target" and r: "r \<in> set (visit_adds reqs None u)"
  have v: "Version u \<noteq> none" using r unfolding visit_adds_None
    by (cases "Version u = none") simp_all
  show ?thesis
  proof (cases "Reqs_Required reqs u")
    case (Inl e)
    with r v show ?thesis by (simp add: visit_adds_None)
  next
    case (Inr rs)
    with r v have "r \<in> set rs" by (simp add: visit_adds_None)
    with u v Inr show ?thesis by (rule reachable.step)
  qed
qed

lemma explore_reachable:
  assumes "explore pick target reqs None = Some st"
  shows "dom (modGraph st) = reachable reqs target"
proof -
  let ?I = "\<lambda>w st. explore_invs target reqs None w st \<and> work_added w \<subseteq> reachable reqs target"
  have "\<exists>w. ?I w st \<and> work_todo w = []"
    using assms unfolding explore_def
  proof (rule Work_Do_rule)
    show "?I (Work_Add target Work_init) init_state"
      using explore_invs_init[of target reqs None]
      by (auto simp: Work_Add_def Work_init_def intro: reachable.root)
  next
    fix w and s :: "'a graph_state"
    assume I: "?I w s" and ne: "work_todo w \<noteq> []"
    let ?m = "fst (Work_take pick w)"
    have wi: "work_inv w" using I by (simp add: explore_invs_def explore_inv_def)
    note tk = Work_take_facts[OF wi ne, of pick]
    have "?m \<in> reachable reqs target" using tk(1) wi I by (auto simp: work_inv_def)
    then have "set (visit_adds reqs None ?m) \<subseteq> reachable reqs target"
      by (auto intro: visit_adds_reachable)
    with I have "work_added (fold Work_Add (snd (visit reqs None ?m s)) (snd (Work_take pick w)))
        \<subseteq> reachable reqs target"
      by (simp add: visit_eq fold_Work_Add tk(2))
    with explore_invs_step[of target reqs None w s pick] I ne
    show "?I (fold Work_Add (snd (visit reqs None ?m s)) (snd (Work_take pick w)))
             (fst (visit reqs None ?m s))"
      by simp
  qed
  then obtain w where w: "explore_invs target reqs None w st" "work_added w \<subseteq> reachable reqs target"
      "work_todo w = []" by blast
  then have ei: "explore_inv target reqs None w st" by (simp add: explore_invs_def)
  then have dom: "dom (modGraph st) = work_added w" using w(3) by (simp add: explore_inv_def)
  have "x \<in> dom (modGraph st)" if "x \<in> reachable reqs target" for x
    using that
  proof (induction rule: reachable.induct)
    case root
    then show ?case using ei dom by (simp add: explore_inv_def)
  next
    case (step u rs r)
    then have "r \<in> set (visit_adds reqs None u)" by (simp add: visit_adds_None)
    moreover have "set (visit_adds reqs None u) \<subseteq> work_added w"
      using ei step.IH unfolding explore_inv_def by blast
    ultimately show ?case using dom by auto
  qed
  with w(2) dom show ?thesis by auto
qed


lemma max_order_key:
  fixes key :: "string \<Rightarrow> 'k::linorder"
  assumes "inj key"
  shows "max_order (\<lambda>a b. if key a \<le> key b then b else a)"
proof -
  have eq: "key a = key b \<Longrightarrow> a = b" for a b using assms by (simp add: inj_eq)
  show ?thesis
    unfolding max_order_def
  proof (intro conjI allI)
    fix a b show "(if key a \<le> key b then b else a) = a \<or> (if key a \<le> key b then b else a) = b"
      by simp
  next
    fix a b show "(if key a \<le> key b then b else a) = (if key b \<le> key a then a else b)"
      using eq[of a b] by (cases "key a \<le> key b"; cases "key b \<le> key a") auto
  next
    fix a b c
    show "(if key (if key a \<le> key b then b else a) \<le> key c then c else (if key a \<le> key b then b else a))
        = (if key a \<le> key (if key b \<le> key c then c else b) then (if key b \<le> key c then c else b) else a)"
      using eq[of a b] eq[of b c] eq[of a c]
      by (cases "key a \<le> key b"; cases "key b \<le> key c"; cases "key a \<le> key c") auto
  qed
qed

lemma max_order_example_Max: "max_order example_Max"
proof -
  have "inj version_key" by (auto simp: inj_def version_key_def)
  from max_order_key[OF this] show ?thesis
    unfolding example_Max_def[abs_def] .
qed

lemma example_Max_contract:
  "example_Max v none = v" "example_Max [] v = []"
  by (auto simp: example_Max_def version_key_def none_def)

text \<open>
  Claim C1. When \<open>Max\<close> is the maximum of a total order and \<open>BuildList\<close> returns a list,
  the version of every element whose path is not the root's is the maximum, under \<open>Max\<close>,
  of the versions other than \<open>none\<close> required for that path on the edges of the reachable
  subgraph: it is one of them and \<open>Max\<close> of it and any of them gives it back. (The graph
  need not be acyclic.)
\<close>

theorem BuildList_selects_max:
  assumes mo: "max_order (Reqs_Max reqs)"
      and bl: "BuildList pick target reqs = Some (Return list)"
      and m: "m \<in> set list" "Path m \<noteq> Path target"
  shows "Version m \<in> required_versions reqs target (Path m) \<and>
         (\<forall>w \<in> required_versions reqs target (Path m). Reqs_Max reqs (Version m) w = Version m)"
proof -
  from bl buildList_Return obtain st where
    st: "explore pick target reqs None = Some st" and fin: "finalize reqs target st = Return list"
    unfolding BuildList_def by blast
  from explore_invs[OF st] mo obtain w where
    mi: "min_inv st" and mm: "min_max_inv reqs st"
    by (auto simp: explore_invs_def)
  note dom = explore_reachable[OF st]
  note fr = finalize_Return[OF fin]
  have d: "distinct (map fst (min_map st))" using mi by (simp add: min_inv_def)
  from m have "m \<in> entry ` set (min_map st)" by (auto simp: fr(1))
  then have sel: "map_of (min_map st) (Path m) = Some (Version m)"
    using d by (auto simp: entry_def)
  with mi have vn: "Version m \<noteq> none" and "\<lparr>Path = Path m, Version = Version m\<rparr> \<in> dom (modGraph st)"
    unfolding min_inv_def by blast+
  moreover have m_eq: "\<lparr>Path = Path m, Version = Version m\<rparr> = m" by simp
  ultimately have "m \<in> reachable reqs target" by (simp add: dom)
  then have "Version m \<in> required_versions reqs target (Path m)"
  proof (cases rule: reachable.cases)
    case root
    with m(2) show ?thesis by simp
  next
    case (step u rs)
    with vn show ?thesis unfolding required_versions_def by (auto simp: m_eq)
  qed
  moreover have "Reqs_Max reqs (Version m) w = Version m"
    if "w \<in> required_versions reqs target (Path m)" for w
  proof -
    from that obtain u rs where "w \<noteq> none" "u \<in> reachable reqs target" "Version u \<noteq> none"
        "Reqs_Required reqs u = Inr rs" "\<lparr>Path = Path m, Version = w\<rparr> \<in> set rs"
      unfolding required_versions_def by blast
    then have "\<lparr>Path = Path m, Version = w\<rparr> \<in> dom (modGraph st)"
      unfolding dom by (auto intro: reachable.step)
    with mm \<open>w \<noteq> none\<close>
    have "Reqs_Max reqs (lookup_str (min_map st) (Path \<lparr>Path = Path m, Version = w\<rparr>))
            (Version \<lparr>Path = Path m, Version = w\<rparr>)
          = lookup_str (min_map st) (Path \<lparr>Path = Path m, Version = w\<rparr>)"
      unfolding min_max_inv_def by (metis module_version.select_convs(2))
    with sel show ?thesis by (simp add: lookup_str_def)
  qed
  ultimately show ?thesis by blast
qed

theorem BuildList_selects_max_witness:
  "max_order (Reqs_Max
     (example_reqs [(main_module, Inr [\<lparr>Path = ''B'', Version = ''1''\<rparr>, \<lparr>Path = ''C'', Version = ''1''\<rparr>]),
                    (\<lparr>Path = ''B'', Version = ''1''\<rparr>, Inr [\<lparr>Path = ''C'', Version = ''2''\<rparr>])] [])) \<and>
   BuildList first_item main_module
     (example_reqs [(main_module, Inr [\<lparr>Path = ''B'', Version = ''1''\<rparr>, \<lparr>Path = ''C'', Version = ''1''\<rparr>]),
                    (\<lparr>Path = ''B'', Version = ''1''\<rparr>, Inr [\<lparr>Path = ''C'', Version = ''2''\<rparr>])] [])
     = Some (Return [main_module, \<lparr>Path = ''B'', Version = ''1''\<rparr>, \<lparr>Path = ''C'', Version = ''2''\<rparr>]) \<and>
   \<lparr>Path = ''C'', Version = ''2''\<rparr>
     \<in> set [main_module, \<lparr>Path = ''B'', Version = ''1''\<rparr>, \<lparr>Path = ''C'', Version = ''2''\<rparr>] \<and>
   Path \<lparr>Path = ''C'', Version = ''2''\<rparr> \<noteq> Path main_module \<and>
   ''2'' \<in> required_versions
     (example_reqs [(main_module, Inr [\<lparr>Path = ''B'', Version = ''1''\<rparr>, \<lparr>Path = ''C'', Version = ''1''\<rparr>]),
                    (\<lparr>Path = ''B'', Version = ''1''\<rparr>, Inr [\<lparr>Path = ''C'', Version = ''2''\<rparr>])] [])
     main_module ''C'' \<and>
   ''1'' \<in> required_versions
     (example_reqs [(main_module, Inr [\<lparr>Path = ''B'', Version = ''1''\<rparr>, \<lparr>Path = ''C'', Version = ''1''\<rparr>]),
                    (\<lparr>Path = ''B'', Version = ''1''\<rparr>, Inr [\<lparr>Path = ''C'', Version = ''2''\<rparr>])] [])
     main_module ''C'' \<and>
   example_Max ''2'' ''1'' = ''2''"
proof -
  let ?reqs = "example_reqs [(main_module, Inr [\<lparr>Path = ''B'', Version = ''1''\<rparr>, \<lparr>Path = ''C'', Version = ''1''\<rparr>]),
                    (\<lparr>Path = ''B'', Version = ''1''\<rparr>, Inr [\<lparr>Path = ''C'', Version = ''2''\<rparr>])] []"
  let ?list = "[main_module, \<lparr>Path = ''B'', Version = ''1''\<rparr>, \<lparr>Path = ''C'', Version = ''2''\<rparr>]"
  have mo: "max_order (Reqs_Max ?reqs)" by (simp add: example_reqs_def max_order_example_Max)
  have bl: "BuildList first_item main_module ?reqs = Some (Return ?list)"
    by (simp add: BuildList_def buildList_def explore_eval finalize_eval example_eval)
  have m: "\<lparr>Path = ''C'', Version = ''2''\<rparr> \<in> set ?list" "Path \<lparr>Path = ''C'', Version = ''2''\<rparr> \<noteq> Path main_module"
    by (simp_all add: main_module_def)
  have "main_module \<in> reachable ?reqs main_module" by (rule reachable.root)
  moreover have "Version main_module \<noteq> none"
    "Reqs_Required ?reqs main_module = Inr [\<lparr>Path = ''B'', Version = ''1''\<rparr>, \<lparr>Path = ''C'', Version = ''1''\<rparr>]"
    by (simp_all add: example_eval)
  ultimately have one: "''1'' \<in> required_versions ?reqs main_module ''C''"
    unfolding required_versions_def by (auto simp: none_def)
  from BuildList_selects_max[OF mo bl m] one
  have "''2'' \<in> required_versions ?reqs main_module ''C''" "Reqs_Max ?reqs ''2'' ''1'' = ''2''"
    by auto
  with mo bl m one show ?thesis
    by (simp add: example_reqs_def)
qed

section \<open>The checks of the finalizer\<close>

lemma check_required_None_iff:
  "check_required reqs target mn rs = None \<longleftrightarrow>
     (\<forall>r \<in> set rs. Version r \<noteq> none \<longrightarrow> Path r \<noteq> Path target \<longrightarrow>
        Reqs_Max reqs (lookup_str mn (Path r)) (Version r) = lookup_str mn (Path r))"
  by (induction rs) (auto simp: Let_def)

lemma collect_Inr_iff:
  "(\<exists>l. collect reqs target st es acc = Inr l) \<longleftrightarrow>
     (\<forall>e \<in> set es. \<exists>n. modGraph st (entry e) = Some n \<and>
        check_required reqs target (min_map st) (node_required n) = None)"
proof (induction es arbitrary: acc)
  case Nil
  then show ?case by simp
next
  case (Cons e es)
  obtain p v where e: "e = (p, v)" by (cases e)
  show ?case
  proof (cases "modGraph st \<lparr>Path = p, Version = v\<rparr>")
    case None
    then show ?thesis by (simp add: e entry_def)
  next
    case (Some n)
    show ?thesis
    proof (cases "check_required reqs target (min_map st) (node_required n)")
      case None
      with Some Cons.IH show ?thesis by (simp add: e entry_def Let_def)
    next
      case (Some a)
      with \<open>modGraph st \<lparr>Path = p, Version = v\<rparr> = Some n\<close> show ?thesis
        by (simp add: e entry_def)
    qed
  qed
qed

lemma enqueue_queue:
  "enqueue g node ns (neededBy, q) = (neededBy', q') \<Longrightarrow> set q' \<subseteq> set q \<union> g ` set ns"
proof (induction ns arbitrary: neededBy q)
  case Nil
  then show ?case by simp
next
  case (Cons x ns)
  show ?case
  proof (cases "neededBy (g x) \<noteq> None")
    case True
    with Cons.prems have "enqueue g node ns (neededBy, q) = (neededBy', q')" by simp
    from Cons.IH[OF this] show ?thesis by auto
  next
    case False
    with Cons.prems have "enqueue g node ns (neededBy(g x := Some node), q @ [g x]) = (neededBy', q')"
      by (simp add: Let_def)
    from Cons.IH[OF this] show ?thesis by auto
  qed
qed

lemma find_error_no_nil:
  assumes "find_error g neededBy q = Some y"
      and "closed_graph g" and "\<forall>ptr \<in> set q. \<exists>n \<in> ran g. ptr = Some n"
  shows "y \<noteq> Some (Panic NilDereference)"
proof -
  have "closed_graph g \<longrightarrow> (\<forall>ptr \<in> set q. \<exists>n \<in> ran g. ptr = Some n) \<longrightarrow> y \<noteq> Some (Panic NilDereference)"
  proof (rule find_error.raw_induct[where P = "\<lambda>g neededBy q y.
      closed_graph g \<longrightarrow> (\<forall>ptr \<in> set q. \<exists>n \<in> ran g. ptr = Some n) \<longrightarrow> y \<noteq> Some (Panic NilDereference)",
      OF _ assms(1)])
    fix fe :: "(module_version \<rightharpoonup> 'a modGraphNode) \<Rightarrow> ('a node_ptr \<Rightarrow> 'a node_ptr) \<Rightarrow> 'a node_ptr list \<Rightarrow>
       (module_version list, 'a) outcome option option"
    fix g neededBy q y
    assume IH: "\<And>g neededBy q y. fe g neededBy q = Some y \<Longrightarrow>
       closed_graph g \<longrightarrow> (\<forall>ptr \<in> set q. \<exists>n \<in> ran g. ptr = Some n) \<longrightarrow> y \<noteq> Some (Panic NilDereference)"
    assume body: "(case q of
        [] \<Rightarrow> Some None
      | ptr # q' \<Rightarrow>
          (case ptr of
             None \<Rightarrow> Some (Some (Panic NilDereference))
           | Some node \<Rightarrow>
               (case node_err node of
                  Some err \<Rightarrow>
                    (case errPath_loop neededBy (neededBy (Some node)) node [node_m node] Map.empty of
                       None \<Rightarrow> None
                     | Some (errPath, pathUpgrade) \<Rightarrow>
                         Some (Some (Fail (NewBuildListError err
                           (reverse_loop 0 (length errPath - 1) errPath) (isUpgrade pathUpgrade)))))
                | None \<Rightarrow>
                    (case enqueue g node (neighbors node) (neededBy, q') of
                       (neededBy', q'') \<Rightarrow> fe g neededBy' q'')))) = Some y"
    show "closed_graph g \<longrightarrow> (\<forall>ptr \<in> set q. \<exists>n \<in> ran g. ptr = Some n) \<longrightarrow> y \<noteq> Some (Panic NilDereference)"
    proof (intro impI)
      assume cl: "closed_graph g" and qs: "\<forall>ptr \<in> set q. \<exists>n \<in> ran g. ptr = Some n"
      show "y \<noteq> Some (Panic NilDereference)"
      proof (cases q)
        case Nil
        with body show ?thesis by simp
      next
        case (Cons ptr q')
        with qs obtain node where node: "ptr = Some node" "node \<in> ran g" by auto
        show ?thesis
        proof (cases "node_err node")
          case (Some err)
          with body Cons node show ?thesis
            by (auto split: option.splits)
        next
          case None
          obtain neededBy' q'' where en: "enqueue g node (neighbors node) (neededBy, q') = (neededBy', q'')"
            by (cases "enqueue g node (neighbors node) (neededBy, q')")
          with body Cons node None have fe: "fe g neededBy' q'' = Some y" by simp
          from node(2) cl have "\<forall>x \<in> set (neighbors node). g x \<noteq> None"
            unfolding closed_graph_def ran_def by blast
          then have "\<forall>ptr \<in> g ` set (neighbors node). \<exists>n \<in> ran g. ptr = Some n"
            by (fastforce simp: ran_def)
          with enqueue_queue[OF en] qs Cons have "\<forall>ptr \<in> set q''. \<exists>n \<in> ran g. ptr = Some n"
            by auto
          with IH[OF fe] cl show ?thesis by blast
        qed
      qed
    qed
  qed
  with assms(2,3) show ?thesis by blast
qed

lemma explore_closed_graph:
  assumes "explore_inv target reqs upgrade w st" "work_todo w = []"
  shows "closed_graph (modGraph st)" and "modGraph st target \<noteq> None"
proof -
  have dom: "dom (modGraph st) = work_added w" using assms by (simp add: explore_inv_def)
  show "modGraph st target \<noteq> None" using assms dom by (auto simp: explore_inv_def)
  show "closed_graph (modGraph st)"
    unfolding closed_graph_def
  proof (intro allI impI ballI)
    fix m n x assume g: "modGraph st m = Some n" and x: "x \<in> set (neighbors n)"
    from g have "m \<in> dom (modGraph st)" by auto
    with assms(1) g have "n = visit_node reqs upgrade m" "set (visit_adds reqs upgrade m) \<subseteq> work_added w"
      unfolding explore_inv_def by auto
    with x neighbors_visit_node[of reqs upgrade m] have "x \<in> dom (modGraph st)"
      unfolding dom by auto
    then show "modGraph st x \<noteq> None" by auto
  qed
qed

lemma buildList_no_error:
  assumes "explore pick target reqs upgrade = Some st" "\<not> haveErr st"
  shows "buildList pick target reqs upgrade = Some (finalize reqs target st)"
  using assms by (simp add: buildList_def)

lemma buildList_cases:
  assumes "explore pick target reqs upgrade = Some st" "buildList pick target reqs upgrade = Some r"
  shows "r = finalize reqs target st \<or>
         (haveErr st \<and> find_error (modGraph st) (\<lambda>_. None) [modGraph st target] = Some (Some r))"
  using assms by (auto simp: buildList_def split: option.splits if_splits)

lemma finalize_cases:
  "(\<exists>p. finalize reqs target st = Panic p) \<or> (\<exists>l. finalize reqs target st = Return l)"
  by (auto simp: finalize_def Let_def split: sum.splits)

lemma finalize_Return_iff:
  "(\<exists>l. finalize reqs target st = Return l) \<longleftrightarrow>
     lookup_str (min_map st) (Path target) = Version target \<and>
     (\<forall>e \<in> set (min_map st). \<exists>n. modGraph st (entry e) = Some n \<and>
        (\<forall>r \<in> set (node_required n). Version r \<noteq> none \<longrightarrow> Path r \<noteq> Path target \<longrightarrow>
           Reqs_Max reqs (lookup_str (min_map st) (Path r)) (Version r) = lookup_str (min_map st) (Path r)))"
proof -
  have "(\<exists>l. finalize reqs target st = Return l) \<longleftrightarrow>
     lookup_str (min_map st) (Path target) = Version target \<and>
     (\<exists>l. collect reqs target st (min_map st) [target] = Inr l)"
    by (auto simp: finalize_def Let_def split: sum.splits)
  then show ?thesis
    unfolding collect_Inr_iff check_required_None_iff .
qed

text \<open>
  Claim C4. First part: when the exploration has ended, and the version selected for the
  root's path is not the root's version, or a requirement \<open>r\<close> of a selected version, of
  version other than \<open>none\<close>, is not covered by the version selected for its path, then
  \<open>buildList\<close> returns no list, and it panics when no error was recorded (an error is
  reported before the finalizer runs). The check of line 219 skips the requirements on the
  root's path; for these the first check is enough, given that \<open>Max\<close> returns one of its
  arguments on the root's version. Second part: under the contract of \<open>Max\<close> (it is the
  maximum of a total order, \<open>Max(v, none) = v\<close>, \<open>Max(root.version, v) = root.version\<close>)
  \<open>buildList\<close> never panics, with any upgrade function and under every scheduler.
\<close>

theorem finalizer_panics:
  "(Reqs_Max reqs (Version target) (Version target) = Version target \<longrightarrow>
    explore pick target reqs upgrade = Some st \<longrightarrow>
      (lookup_str (min_map st) (Path target) \<noteq> Version target \<or>
       (\<exists>e \<in> set (min_map st). \<exists>n. modGraph st (entry e) = Some n \<and>
          (\<exists>r \<in> set (node_required n). Version r \<noteq> none \<and>
             Reqs_Max reqs (lookup_str (min_map st) (Path r)) (Version r)
               \<noteq> lookup_str (min_map st) (Path r)))) \<longrightarrow>
      (\<forall>list. buildList pick target reqs upgrade \<noteq> Some (Return list)) \<and>
      (\<not> haveErr st \<longrightarrow> (\<exists>p. buildList pick target reqs upgrade = Some (Panic p)))) \<and>
   (max_order (Reqs_Max reqs') \<longrightarrow>
    (\<forall>v. Reqs_Max reqs' v none = v) \<longrightarrow>
    (\<forall>v. Reqs_Max reqs' (Version target') v = Version target') \<longrightarrow>
    (\<forall>p. buildList pick' target' reqs' upgrade' \<noteq> Some (Panic p)))"
proof (intro conjI impI)
  let ?M = "Reqs_Max reqs"
  assume idem: "?M (Version target) (Version target) = Version target"
    and st: "explore pick target reqs upgrade = Some st"
    and viol: "lookup_str (min_map st) (Path target) \<noteq> Version target \<or>
             (\<exists>e \<in> set (min_map st). \<exists>n. modGraph st (entry e) = Some n \<and>
                (\<exists>r \<in> set (node_required n). Version r \<noteq> none \<and>
                   ?M (lookup_str (min_map st) (Path r)) (Version r) \<noteq> lookup_str (min_map st) (Path r)))"
  from explore_invs[OF st] obtain w where
    ei: "explore_inv target reqs upgrade w st" and ri: "root_inv target reqs w st" and w: "work_todo w = []"
    by (auto simp: explore_invs_def)
  have dom: "dom (modGraph st) = work_added w" using ei w by (simp add: explore_inv_def)
  have no_ret: "\<not> (\<exists>l. finalize reqs target st = Return l)"
  proof
    assume "\<exists>l. finalize reqs target st = Return l"
    then have lk: "lookup_str (min_map st) (Path target) = Version target"
      and ok: "\<And>e. e \<in> set (min_map st) \<Longrightarrow> \<exists>n. modGraph st (entry e) = Some n \<and>
        (\<forall>r \<in> set (node_required n). Version r \<noteq> none \<longrightarrow> Path r \<noteq> Path target \<longrightarrow>
           ?M (lookup_str (min_map st) (Path r)) (Version r) = lookup_str (min_map st) (Path r))"
      unfolding finalize_Return_iff by blast+
    from viol lk obtain e n r where e: "e \<in> set (min_map st)" "modGraph st (entry e) = Some n"
      and r: "r \<in> set (node_required n)" "Version r \<noteq> none"
        "?M (lookup_str (min_map st) (Path r)) (Version r) \<noteq> lookup_str (min_map st) (Path r)"
      by blast
    from ok[OF e(1)] e(2) r have pr: "Path r = Path target" by auto
    from e(2) have "entry e \<in> dom (modGraph st)" by auto
    with ei e(2) have "n = visit_node reqs upgrade (entry e)"
       "set (visit_adds reqs upgrade (entry e)) \<subseteq> work_added w"
      unfolding explore_inv_def by auto
    with r(1) required_visit_node[of reqs upgrade "entry e"] have rd: "r \<in> dom (modGraph st)"
      unfolding dom by auto
    from r(3) pr lk have bad: "?M (Version target) (Version r) \<noteq> Version target" by simp
    show False
    proof (cases "r = target")
      case True
      with bad idem show ?thesis by auto
    next
      case False
      from ri w have "\<forall>m \<in> dom (modGraph st). Path m = Path target \<longrightarrow> Version m \<noteq> none \<longrightarrow> m \<noteq> target \<longrightarrow>
            ?M (Version target) (Version m) = Version target"
        unfolding root_inv_def using lk by auto
      with rd pr r(2) False bad show ?thesis by blast
    qed
  qed
  show "\<forall>list. buildList pick target reqs upgrade \<noteq> Some (Return list)"
  proof (intro allI notI)
    fix list assume "buildList pick target reqs upgrade = Some (Return list)"
    from buildList_Return[OF this] st no_ret show False by auto
  qed
  show "\<exists>p. buildList pick target reqs upgrade = Some (Panic p)" if "\<not> haveErr st"
    using buildList_no_error[OF st that] finalize_cases[of reqs target st] no_ret by auto
next
  let ?M = "Reqs_Max reqs'"
  assume mo: "max_order ?M"
    and bot: "\<forall>v. ?M v none = v"
    and top: "\<forall>v. ?M (Version target') v = Version target'"
  have comm: "\<forall>a b. ?M a b = ?M b a" using mo unfolding max_order_def by blast
  have vt: "Version target' \<noteq> none"
  proof
    assume "Version target' = none"
    with top bot comm have "?M none [] = none" "?M none [] = []" by metis+
    then show False by (simp add: none_def)
  qed
  show "\<forall>p. buildList pick' target' reqs' upgrade' \<noteq> Some (Panic p)"
  proof (intro allI notI)
    fix p assume bl: "buildList pick' target' reqs' upgrade' = Some (Panic p)"
    then obtain st where st: "explore pick' target' reqs' upgrade' = Some st"
      by (auto simp: buildList_def split: option.splits)
    from explore_invs[OF st] mo obtain w where
      ei: "explore_inv target' reqs' upgrade' w st" and ri: "root_inv target' reqs' w st"
      and mi: "min_inv st" and mm: "min_max_inv reqs' st" and w: "work_todo w = []"
      by (auto simp: explore_invs_def)
    have dom: "dom (modGraph st) = work_added w" using ei w by (simp add: explore_inv_def)
    note cg = explore_closed_graph[OF ei w]
    have lk: "lookup_str (min_map st) (Path target') = Version target'"
      using ri w top vt unfolding root_inv_def by auto
    have "\<exists>l. finalize reqs' target' st = Return l"
      unfolding finalize_Return_iff
    proof (intro conjI ballI)
      show "lookup_str (min_map st) (Path target') = Version target'" by (rule lk)
    next
      fix e assume e: "e \<in> set (min_map st)"
      have d: "distinct (map fst (min_map st))" using mi by (simp add: min_inv_def)
      from e have "map_of (min_map st) (fst e) = Some (snd e)"
        by (simp add: map_of_eq_Some_iff[OF d])
      with mi have ed: "entry e \<in> dom (modGraph st)" unfolding min_inv_def entry_def by blast
      with ei have n: "modGraph st (entry e) = Some (visit_node reqs' upgrade' (entry e))"
        and ad: "set (visit_adds reqs' upgrade' (entry e)) \<subseteq> work_added w"
        unfolding explore_inv_def by auto
      have "?M (lookup_str (min_map st) (Path r)) (Version r) = lookup_str (min_map st) (Path r)"
        if "r \<in> set (node_required (visit_node reqs' upgrade' (entry e)))" "Version r \<noteq> none" for r
      proof -
        from that(1) ad required_visit_node[of reqs' upgrade' "entry e"] have "r \<in> dom (modGraph st)"
          unfolding dom by auto
        with mm that(2) show ?thesis unfolding min_max_inv_def by blast
      qed
      with n show "\<exists>n. modGraph st (entry e) = Some n \<and>
        (\<forall>r \<in> set (node_required n). Version r \<noteq> none \<longrightarrow> Path r \<noteq> Path target' \<longrightarrow>
           ?M (lookup_str (min_map st) (Path r)) (Version r) = lookup_str (min_map st) (Path r))"
        by blast
    qed
    with buildList_cases[OF st bl]
    have fe: "find_error (modGraph st) (\<lambda>_. None) [modGraph st target'] = Some (Some (Panic p))"
      by auto
    from find_error_result[OF fe] have "p = NilDereference" by auto
    moreover have "\<forall>ptr \<in> set [modGraph st target']. \<exists>n \<in> ran (modGraph st). ptr = Some n"
      using cg(2) by (auto simp: ran_def)
    ultimately show False using find_error_no_nil[OF fe cg(1)] by simp
  qed
qed

theorem finalizer_panics_witness:
  "example_Max ''1'' ''1'' = ''1'' \<and>
   (\<exists>st. explore first_item \<lparr>Path = ''main'', Version = ''1''\<rparr>
            (example_reqs [(\<lparr>Path = ''main'', Version = ''1''\<rparr>, Inr [\<lparr>Path = ''A'', Version = ''1''\<rparr>]),
                           (\<lparr>Path = ''A'', Version = ''1''\<rparr>, Inr [\<lparr>Path = ''main'', Version = ''2''\<rparr>])] [])
            None = Some st \<and>
          lookup_str (min_map st) ''main'' \<noteq> ''1'' \<and> \<not> haveErr st) \<and>
   (\<forall>list. buildList first_item \<lparr>Path = ''main'', Version = ''1''\<rparr>
     (example_reqs [(\<lparr>Path = ''main'', Version = ''1''\<rparr>, Inr [\<lparr>Path = ''A'', Version = ''1''\<rparr>]),
                    (\<lparr>Path = ''A'', Version = ''1''\<rparr>, Inr [\<lparr>Path = ''main'', Version = ''2''\<rparr>])] [])
     None \<noteq> Some (Return list)) \<and>
   (\<exists>p. buildList first_item \<lparr>Path = ''main'', Version = ''1''\<rparr>
     (example_reqs [(\<lparr>Path = ''main'', Version = ''1''\<rparr>, Inr [\<lparr>Path = ''A'', Version = ''1''\<rparr>]),
                    (\<lparr>Path = ''A'', Version = ''1''\<rparr>, Inr [\<lparr>Path = ''main'', Version = ''2''\<rparr>])] [])
     None = Some (Panic p)) \<and>
   max_order example_Max \<and> (\<forall>v. example_Max v none = v) \<and>
   (\<forall>v. example_Max (Version main_module) v = Version main_module) \<and>
   (\<forall>p. buildList first_item main_module
      (example_reqs [(main_module, Inr [\<lparr>Path = ''B'', Version = ''1''\<rparr>, \<lparr>Path = ''C'', Version = ''1''\<rparr>]),
                     (\<lparr>Path = ''B'', Version = ''1''\<rparr>, Inr [\<lparr>Path = ''C'', Version = ''2''\<rparr>])] [])
      None \<noteq> Some (Panic p))"
proof -
  let ?t = "\<lparr>Path = ''main'', Version = ''1''\<rparr>"
  let ?bad = "example_reqs [(?t, Inr [\<lparr>Path = ''A'', Version = ''1''\<rparr>]),
                           (\<lparr>Path = ''A'', Version = ''1''\<rparr>, Inr [\<lparr>Path = ''main'', Version = ''2''\<rparr>])] []"
  let ?good = "example_reqs [(main_module, Inr [\<lparr>Path = ''B'', Version = ''1''\<rparr>, \<lparr>Path = ''C'', Version = ''1''\<rparr>]),
                     (\<lparr>Path = ''B'', Version = ''1''\<rparr>, Inr [\<lparr>Path = ''C'', Version = ''2''\<rparr>])] []"
  have 1: "example_Max ''1'' ''1'' = ''1''" by (simp add: example_eval)
  have 2: "\<exists>st. explore first_item ?t ?bad None = Some st \<and>
          lookup_str (min_map st) ''main'' \<noteq> ''1'' \<and> \<not> haveErr st"
    by (simp add: explore_eval example_eval lookup_str_def)
  have 4: "max_order example_Max" by (rule max_order_example_Max)
  have 5: "\<forall>v. example_Max v none = v" "\<forall>v. example_Max (Version main_module) v = Version main_module"
    by (simp_all add: example_Max_contract main_module_def)
  from 2 obtain st where st: "explore first_item ?t ?bad None = Some st"
      "lookup_str (min_map st) ''main'' \<noteq> ''1''" "\<not> haveErr st" by blast
  note inst = finalizer_panics[where reqs = ?bad and target = ?t and pick = first_item and upgrade = None
      and st = st and reqs' = ?good and target' = main_module and pick' = first_item and upgrade' = None]
  from inst 4 5 have "\<forall>p. buildList first_item main_module ?good None \<noteq> Some (Panic p)"
    by (simp add: example_reqs_def)
  moreover from inst 1 st
  have "(\<forall>list. buildList first_item ?t ?bad None \<noteq> Some (Return list)) \<and>
        (\<exists>p. buildList first_item ?t ?bad None = Some (Panic p))"
    by (simp add: example_reqs_def)
  ultimately show ?thesis using 1 2 4 5 by blast
qed

section \<open>\<open>Downgrade\<close>: the bound of each path\<close>

lemma exclude_list_spec:
  assumes "exclude_list ms st = Some st'"
  shows "added st' = added st \<and> rdeps st' = rdeps st \<and> excluded st \<union> set ms \<subseteq> excluded st' \<and>
         (\<forall>r \<in> excluded st' - excluded st. set (rdeps st r) \<subseteq> excluded st')"
proof (rule exclude_list.raw_induct[where P = "\<lambda>ms st st'.
    added st' = added st \<and> rdeps st' = rdeps st \<and> excluded st \<union> set ms \<subseteq> excluded st' \<and>
    (\<forall>r \<in> excluded st' - excluded st. set (rdeps st r) \<subseteq> excluded st')", OF _ assms], goal_cases)
  case (1 el ms st st')
  note IH = 1(1) and body = 1(2)
  show ?case
  proof (cases ms)
    case Nil
    with body show ?thesis by simp
  next
    case (Cons m rest)
    show ?thesis
    proof (cases "m \<in> excluded st")
      case True
      with body Cons have "el rest st = Some st'" by simp
      from IH[OF this] True show ?thesis by (auto simp: Cons)
    next
      case False
      let ?st1 = "st\<lparr>excluded := insert m (excluded st)\<rparr>"
      from body Cons False obtain st2 where
        a: "el (rdeps st m) ?st1 = Some st2" and b: "el rest st2 = Some st'"
        by (auto simp: bind_eq_Some_conv)
      note A = IH[OF a] and B = IH[OF b]
      have r2: "rdeps st2 = rdeps st" using A by simp
      show ?thesis
      proof (intro conjI ballI)
        show "added st' = added st" using A B by simp
        show "rdeps st' = rdeps st" using A B by simp
        show "excluded st \<union> set ms \<subseteq> excluded st'" using A B by (auto simp: Cons)
      next
        fix r assume r: "r \<in> excluded st' - excluded st"
        show "set (rdeps st r) \<subseteq> excluded st'"
        proof (cases "r \<in> excluded st2")
          case False
          with r B show ?thesis by (auto simp: r2)
        next
          case True
          show ?thesis
          proof (cases "r = m")
            case True
            with A B show ?thesis by auto
          next
            case False
            with True r have "r \<in> excluded st2 - excluded ?st1" by auto
            with A have "set (rdeps st r) \<subseteq> excluded st2" by auto
            with B show ?thesis by auto
          qed
        qed
      qed
    qed
  qed
qed

lemma exclude_inv:
  assumes ex: "exclude m st = Some st'"
      and g2: "\<forall>x \<in> added st - excluded st - {m}. under_cap reqs mx x"
      and g3: "\<forall>x \<in> added st - excluded st - S - {m}.
        \<exists>list. Reqs_Required reqs x = Inr list \<and> (\<forall>r \<in> set list. r \<in> added st \<and> x \<in> set (rdeps st r))"
      and g4: "\<forall>r \<in> excluded st. set (rdeps st r) \<subseteq> excluded st"
  shows "dg_inv reqs mx S st'" and "dg_mono st st'" and "m \<in> excluded st'"
proof -
  from exclude_list_spec[OF ex[unfolded exclude_def]]
  have a: "added st' = added st" and r: "rdeps st' = rdeps st"
    and e: "excluded st \<subseteq> excluded st'" "m \<in> excluded st'"
    and c: "\<forall>r \<in> excluded st' - excluded st. set (rdeps st r) \<subseteq> excluded st'"
    by auto
  show "m \<in> excluded st'" by (rule e(2))
  show "dg_mono st st'" using a r e by (simp add: dg_mono_def)
  show "dg_inv reqs mx S st'"
    unfolding dg_inv_def
  proof (intro conjI ballI)
    fix x assume "x \<in> added st' - excluded st'"
    with a e have "x \<in> added st - excluded st - {m}" by auto
    with g2 show "under_cap reqs mx x" by blast
  next
    fix x assume "x \<in> added st' - excluded st' - S"
    with a e have "x \<in> added st - excluded st - S - {m}" by auto
    with g3 show "\<exists>list. Reqs_Required reqs x = Inr list \<and>
        (\<forall>r \<in> set list. r \<in> added st' \<and> x \<in> set (rdeps st' r))"
      by (simp add: a r)
  next
    fix r' assume "r' \<in> excluded st'"
    with c g4 e show "set (rdeps st' r') \<subseteq> excluded st'" unfolding r by blast
  qed
qed

lemma dg_mono_refl: "dg_mono st st"
  by (simp add: dg_mono_def)

lemma dg_mono_trans: "dg_mono a b \<Longrightarrow> dg_mono b c \<Longrightarrow> dg_mono a c"
  unfolding dg_mono_def by blast


lemma under_cap_iff:
  "under_cap reqs mx r \<longleftrightarrow>
     \<not> (case mx (Path r) of None \<Rightarrow> False | Some v \<Rightarrow> Reqs_Max reqs (Version r) v \<noteq> v)"
  by (simp add: under_cap_def split: option.splits)

lemma add_step:
  fixes al :: "'e Reqs \<Rightarrow> (string \<rightharpoonup> string) \<Rightarrow> module_version \<Rightarrow> module_version list \<Rightarrow>
     dg_state \<Rightarrow> dg_state option"
  assumes IH: "\<And>list st0 st1 S'. al reqs mx r list st0 = Some st1 \<Longrightarrow>
        dg_inv reqs mx (insert r S') st0 \<Longrightarrow> Reqs_Required reqs r = Inr list \<Longrightarrow>
        dg_inv reqs mx S' st1 \<and> dg_mono st0 st1"
    and run: "(if r \<in> added st then Some st
             else
               (let st0 = st\<lparr>added := insert r (added st)\<rparr>
                in if (case mx (Path r) of None \<Rightarrow> False | Some v \<Rightarrow> Reqs_Max reqs (Version r) v \<noteq> v)
                   then exclude r st0
                   else
                     (case Reqs_Required reqs r of
                        Inl err \<Rightarrow> exclude r st0
                      | Inr list \<Rightarrow> al reqs mx r list st0))) = Some st1"
    and inv: "dg_inv reqs mx S st"
  shows "dg_inv reqs mx S st1 \<and> dg_mono st st1 \<and> r \<in> added st1"
proof (cases "r \<in> added st")
  case True
  with run inv show ?thesis by (simp add: dg_mono_refl)
next
  case False
  let ?st0 = "st\<lparr>added := insert r (added st)\<rparr>"
  have g2: "\<forall>x \<in> added st - excluded st. under_cap reqs mx x"
    and g3: "\<forall>x \<in> added st - excluded st - S.
        \<exists>list. Reqs_Required reqs x = Inr list \<and> (\<forall>r \<in> set list. r \<in> added st \<and> x \<in> set (rdeps st r))"
    and g4: "\<forall>r \<in> excluded st. set (rdeps st r) \<subseteq> excluded st"
    using inv unfolding dg_inv_def by blast+
  have m0: "dg_mono st ?st0" by (auto simp: dg_mono_def)
  have e2: "\<forall>x \<in> added ?st0 - excluded ?st0 - {r}. under_cap reqs mx x" using g2 by auto
  have e3': "\<exists>list. Reqs_Required reqs x = Inr list \<and>
        (\<forall>r \<in> set list. r \<in> added ?st0 \<and> x \<in> set (rdeps ?st0 r))"
    if "x \<in> added ?st0 - excluded ?st0 - S - {r}" for x
  proof -
    from that have "x \<in> added st - excluded st - S" by auto
    with g3 obtain list where "Reqs_Required reqs x = Inr list"
        "\<forall>r \<in> set list. r \<in> added st \<and> x \<in> set (rdeps st r)" by blast
    then show ?thesis by auto
  qed
  then have e3: "\<forall>x \<in> added ?st0 - excluded ?st0 - S - {r}.
        \<exists>list. Reqs_Required reqs x = Inr list \<and> (\<forall>r \<in> set list. r \<in> added ?st0 \<and> x \<in> set (rdeps ?st0 r))"
    by blast
  have e4: "\<forall>r \<in> excluded ?st0. set (rdeps ?st0 r) \<subseteq> excluded ?st0" using g4 by simp
  have via_exclude: ?thesis if ex: "exclude r ?st0 = Some st1"
  proof -
    note E = exclude_inv[OF ex e2 e3 e4]
    from E(2) have "r \<in> added st1" by (auto simp: dg_mono_def)
    with E dg_mono_trans[OF m0 E(2)] show ?thesis by simp
  qed
  show ?thesis
  proof (cases "under_cap reqs mx r")
    case uc: False
    with run False have "exclude r ?st0 = Some st1" by (simp add: under_cap_iff Let_def)
    then show ?thesis by (rule via_exclude)
  next
    case uc: True
    show ?thesis
    proof (cases "Reqs_Required reqs r")
      case (Inl err)
      with run False uc have "exclude r ?st0 = Some st1" by (simp add: under_cap_iff Let_def)
      then show ?thesis by (rule via_exclude)
    next
      case (Inr list)
      with run False uc have al: "al reqs mx r list ?st0 = Some st1" by (simp add: under_cap_iff Let_def)
      have "dg_inv reqs mx (insert r S) ?st0"
        unfolding dg_inv_def
      proof (intro conjI ballI)
        fix x assume "x \<in> added ?st0 - excluded ?st0"
        then show "under_cap reqs mx x" using g2 uc by auto
      next
        fix x assume "x \<in> added ?st0 - excluded ?st0 - insert r S"
        then have "x \<in> added ?st0 - excluded ?st0 - S - {r}" by auto
        then show "\<exists>list. Reqs_Required reqs x = Inr list \<and>
            (\<forall>r \<in> set list. r \<in> added ?st0 \<and> x \<in> set (rdeps ?st0 r))"
          by (rule e3')
      next
        fix r' assume "r' \<in> excluded ?st0"
        then show "set (rdeps ?st0 r') \<subseteq> excluded ?st0" using g4 by simp
      qed
      from IH[OF al this Inr] have R: "dg_inv reqs mx S st1" "dg_mono ?st0 st1" by simp_all
      from R(2) have "r \<in> added st1" by (auto simp: dg_mono_def)
      with R dg_mono_trans[OF m0 R(2)] show ?thesis by simp
    qed
  qed
qed

lemma add_loop_spec:
  assumes "add_loop reqs mx m rs st = Some st'"
      and "dg_inv reqs mx (insert m S) st"
      and "Reqs_Required reqs m = Inr (pre @ rs)"
      and "\<forall>r \<in> set pre. r \<in> added st \<and> m \<in> set (rdeps st r)"
  shows "dg_inv reqs mx S st' \<and> dg_mono st st'"
proof -
  have "\<forall>S pre. dg_inv reqs mx (insert m S) st \<longrightarrow> Reqs_Required reqs m = Inr (pre @ rs) \<longrightarrow>
          (\<forall>r \<in> set pre. r \<in> added st \<and> m \<in> set (rdeps st r)) \<longrightarrow>
          dg_inv reqs mx S st' \<and> dg_mono st st'"
  proof (rule add_loop.raw_induct[where P = "\<lambda>reqs mx m rs st st'.
      \<forall>S pre. dg_inv reqs mx (insert m S) st \<longrightarrow> Reqs_Required reqs m = Inr (pre @ rs) \<longrightarrow>
          (\<forall>r \<in> set pre. r \<in> added st \<and> m \<in> set (rdeps st r)) \<longrightarrow>
          dg_inv reqs mx S st' \<and> dg_mono st st'", OF _ assms(1)], goal_cases)
    case (1 al reqs mx m rs st st')
    note IH = 1(1) and body = 1(2)
    show ?case
    proof (intro allI impI)
      fix S pre
      assume inv: "dg_inv reqs mx (insert m S) st"
        and req: "Reqs_Required reqs m = Inr (pre @ rs)"
        and pre: "\<forall>r \<in> set pre. r \<in> added st \<and> m \<in> set (rdeps st r)"
      show "dg_inv reqs mx S st' \<and> dg_mono st st'"
      proof (cases rs)
        case Nil
        with body have st': "st' = st" by simp
        have "dg_inv reqs mx S st"
          unfolding dg_inv_def
        proof (intro conjI ballI)
          fix x assume "x \<in> added st - excluded st"
          with inv show "under_cap reqs mx x" unfolding dg_inv_def by blast
        next
          fix x assume x: "x \<in> added st - excluded st - S"
          show "\<exists>list. Reqs_Required reqs x = Inr list \<and>
              (\<forall>r \<in> set list. r \<in> added st \<and> x \<in> set (rdeps st r))"
          proof (cases "x = m")
            case True
            with req pre Nil show ?thesis by auto
          next
            case False
            with x inv show ?thesis unfolding dg_inv_def by blast
          qed
        next
          fix r assume "r \<in> excluded st"
          with inv show "set (rdeps st r) \<subseteq> excluded st" unfolding dg_inv_def by blast
        qed
        then show ?thesis by (simp add: st' dg_mono_refl)
      next
        case (Cons r rest)
        from body Cons obtain st1 where
          a: "(if r \<in> added st then Some st
             else
               (let st0 = st\<lparr>added := insert r (added st)\<rparr>
                in if (case mx (Path r) of None \<Rightarrow> False | Some v \<Rightarrow> Reqs_Max reqs (Version r) v \<noteq> v)
                   then exclude r st0
                   else
                     (case Reqs_Required reqs r of
                        Inl err \<Rightarrow> exclude r st0
                      | Inr list \<Rightarrow> al reqs mx r list st0))) = Some st1"
          and b: "(if r \<in> excluded st1 then exclude m st1
                    else al reqs mx m rest (st1\<lparr>rdeps := (rdeps st1)(r := rdeps st1 r @ [m])\<rparr>)) = Some st'"
          by (auto simp: bind_eq_Some_conv)
        have IH': "al reqs mx r list st0 = Some st1 \<Longrightarrow>
            dg_inv reqs mx (insert r S') st0 \<Longrightarrow> Reqs_Required reqs r = Inr list \<Longrightarrow>
            dg_inv reqs mx S' st1 \<and> dg_mono st0 st1" for list st0 st1 S'
          using IH[of reqs mx r list st0 st1] by (metis append_Nil empty_iff list.set(1))
        from add_step[of al reqs mx r st st1 "insert m S", OF IH' a inv]
        have A: "dg_inv reqs mx (insert m S) st1" "dg_mono st st1" "r \<in> added st1" by simp_all
        have g2: "\<forall>x \<in> added st1 - excluded st1. under_cap reqs mx x"
          and g3: "\<forall>x \<in> added st1 - excluded st1 - insert m S.
            \<exists>list. Reqs_Required reqs x = Inr list \<and> (\<forall>r \<in> set list. r \<in> added st1 \<and> x \<in> set (rdeps st1 r))"
          and g4: "\<forall>r \<in> excluded st1. set (rdeps st1 r) \<subseteq> excluded st1"
          using A(1) unfolding dg_inv_def by blast+
        show ?thesis
        proof (cases "r \<in> excluded st1")
          case True
          with b have ex: "exclude m st1 = Some st'" by simp
          have "\<forall>x \<in> added st1 - excluded st1 - {m}. under_cap reqs mx x" using g2 by blast
          moreover have "\<forall>x \<in> added st1 - excluded st1 - S - {m}.
            \<exists>list. Reqs_Required reqs x = Inr list \<and> (\<forall>r \<in> set list. r \<in> added st1 \<and> x \<in> set (rdeps st1 r))"
            using g3 by blast
          ultimately have "dg_inv reqs mx S st'" "dg_mono st1 st'"
            using exclude_inv(1,2)[OF ex _ _ g4, of reqs mx S] by blast+
          with A(2) show ?thesis by (blast intro: dg_mono_trans)
        next
          case False
          let ?st2 = "st1\<lparr>rdeps := (rdeps st1)(r := rdeps st1 r @ [m])\<rparr>"
          from b False have al: "al reqs mx m rest ?st2 = Some st'" by simp
          have m2: "dg_mono st1 ?st2" by (auto simp: dg_mono_def)
          have inv2: "dg_inv reqs mx (insert m S) ?st2"
            unfolding dg_inv_def
          proof (intro conjI ballI)
            fix x assume "x \<in> added ?st2 - excluded ?st2"
            with g2 show "under_cap reqs mx x" by simp
          next
            fix x assume "x \<in> added ?st2 - excluded ?st2 - insert m S"
            with g3 obtain list where "Reqs_Required reqs x = Inr list"
                "\<forall>r \<in> set list. r \<in> added st1 \<and> x \<in> set (rdeps st1 r)" by auto
            then show "\<exists>list. Reqs_Required reqs x = Inr list \<and>
                (\<forall>r \<in> set list. r \<in> added ?st2 \<and> x \<in> set (rdeps ?st2 r))"
              by auto
          next
            fix r' assume "r' \<in> excluded ?st2"
            with g4 False show "set (rdeps ?st2 r') \<subseteq> excluded ?st2" by auto
          qed
          have req2: "Reqs_Required reqs m = Inr ((pre @ [r]) @ rest)" using req Cons by simp
          have "r' \<in> added ?st2 \<and> m \<in> set (rdeps ?st2 r')" if "r' \<in> set pre" for r'
          proof -
            from pre that have "r' \<in> added st" "m \<in> set (rdeps st r')" by blast+
            with A(2) have "r' \<in> added st1" "m \<in> set (rdeps st1 r')"
              unfolding dg_mono_def by blast+
            then show ?thesis by auto
          qed
          then have pre2: "\<forall>r' \<in> set (pre @ [r]). r' \<in> added ?st2 \<and> m \<in> set (rdeps ?st2 r')"
            using A(3) by auto
          from IH[OF al] inv2 req2 pre2 have "dg_inv reqs mx S st'" "dg_mono ?st2 st'" by blast+
          with A(2) m2 show ?thesis by (blast intro: dg_mono_trans)
        qed
      qed
    qed
  qed
  with assms(2-4) show ?thesis by blast
qed

lemma add_spec:
  assumes "add reqs mx m st = Some st'" and "dg_inv reqs mx S st"
  shows "dg_inv reqs mx S st' \<and> dg_mono st st' \<and> m \<in> added st'"
proof (rule add_step[of add_loop reqs mx m st st' S])
  show "(if m \<in> added st then Some st
         else let st0 = st\<lparr>added := insert m (added st)\<rparr>
              in if case mx (Path m) of None \<Rightarrow> False | Some v \<Rightarrow> Reqs_Max reqs (Version m) v \<noteq> v
                 then exclude m st0
                 else case Reqs_Required reqs m of Inl err \<Rightarrow> exclude m st0
                      | Inr list \<Rightarrow> add_loop reqs mx m list st0) = Some st'"
    using assms(1) unfolding add_def .
  show "dg_inv reqs mx S st" by (rule assms(2))
  show "dg_inv reqs mx S' st1 \<and> dg_mono st0 st1"
    if "add_loop reqs mx m list st0 = Some st1" "dg_inv reqs mx (insert m S') st0"
       "Reqs_Required reqs m = Inr list" for list st0 st1 S'
    using add_loop_spec[OF that(1,2), of "[]"] that(3) by simp
qed


lemma previous_chain_trans:
  assumes "x \<in> previous_chain reqs mx p" "p \<in> previous_chain reqs mx r"
  shows "x \<in> previous_chain reqs mx r"
  using assms
  by (induction rule: previous_chain.induct) (auto intro: previous_chain.previous)

lemma previous_loop_spec:
  fixes reqs :: "'e Reqs"
  assumes "previous_loop reqs mx r st = Some (Inr (x, st'))"
      and "dg_inv reqs mx {} st" and "r \<in> added st"
  shows "dg_inv reqs mx {} st' \<and>
         (\<forall>r'. x = Some r' \<longrightarrow> r' \<in> added st' - excluded st' \<and> r' \<in> previous_chain reqs mx r)"
proof -
  have "dg_inv reqs mx {} st \<longrightarrow> r \<in> added st \<longrightarrow>
     (\<forall>y st''. (Inr (x, st') :: 'e + module_version option \<times> dg_state) = Inr (y, st'') \<longrightarrow>
         dg_inv reqs mx {} st'' \<and>
         (\<forall>r'. y = Some r' \<longrightarrow> r' \<in> added st'' - excluded st'' \<and> r' \<in> previous_chain reqs mx r))"
  proof (rule previous_loop.raw_induct[where P = "\<lambda>(reqs :: 'e Reqs) mx r st
        (res :: 'e + module_version option \<times> dg_state).
      dg_inv reqs mx {} st \<longrightarrow> r \<in> added st \<longrightarrow>
      (\<forall>x st'. res = Inr (x, st') \<longrightarrow> dg_inv reqs mx {} st' \<and>
         (\<forall>r'. x = Some r' \<longrightarrow> r' \<in> added st' - excluded st' \<and> r' \<in> previous_chain reqs mx r))",
      OF _ assms(1)], goal_cases)
    case (1 pl reqs mx r st res)
    note IH = 1(1) and body = 1(2)
    show ?case
    proof (intro impI allI)
      fix x st'
      assume inv: "dg_inv reqs mx {} st" and r: "r \<in> added st" and res: "res = Inr (x, st')"
      show "dg_inv reqs mx {} st' \<and>
         (\<forall>r'. x = Some r' \<longrightarrow> r' \<in> added st' - excluded st' \<and> r' \<in> previous_chain reqs mx r)"
      proof (cases "r \<in> excluded st")
        case False
        with body res inv r show ?thesis by (auto intro: previous_chain.start)
      next
        case True
        with body res obtain p0 where p0: "Reqs_Previous reqs r = Inr p0"
          by (cases "Reqs_Previous reqs r") auto
        let ?p = "clamp_previous reqs mx r p0"
        have pc: "?p \<in> previous_chain reqs mx r"
          by (rule previous_chain.previous[OF previous_chain.start p0])
        show ?thesis
        proof (cases "Version ?p = none")
          case vn: True
          with body res True p0 inv show ?thesis by (simp add: Let_def)
        next
          case vn: False
          with body res True p0 obtain st1 where
            a: "add reqs mx ?p st = Some st1" and b: "pl reqs mx ?p st1 = Some res"
            by (auto simp: Let_def bind_eq_Some_conv)
          from add_spec[OF a inv] have A: "dg_inv reqs mx {} st1" "?p \<in> added st1" by simp_all
          from IH[OF b] A res
          have "dg_inv reqs mx {} st'"
            "\<forall>r'. x = Some r' \<longrightarrow> r' \<in> added st' - excluded st' \<and> r' \<in> previous_chain reqs mx ?p"
            by blast+
          with pc show ?thesis by (blast intro: previous_chain_trans)
        qed
      qed
    qed
  qed
  with assms(2,3) show ?thesis by blast
qed

lemma required_closure_fits:
  assumes inv: "dg_inv reqs mx {} st" and m: "m \<in> added st - excluded st"
      and x: "x \<in> required_closure reqs m"
  shows "x \<in> added st - excluded st \<and> under_cap reqs mx x"
proof -
  have g2: "\<forall>x \<in> added st - excluded st. under_cap reqs mx x"
    and g3: "\<forall>x \<in> added st - excluded st.
        \<exists>list. Reqs_Required reqs x = Inr list \<and> (\<forall>r \<in> set list. r \<in> added st \<and> x \<in> set (rdeps st r))"
    and g4: "\<forall>r \<in> excluded st. set (rdeps st r) \<subseteq> excluded st"
    using inv unfolding dg_inv_def by auto
  from x have "x \<in> added st - excluded st"
  proof (induction rule: required_closure.induct)
    case self
    then show ?case by (rule m)
  next
    case (step x list r)
    from g3 step.IH obtain list' where "Reqs_Required reqs x = Inr list'"
        "\<forall>r \<in> set list'. r \<in> added st \<and> x \<in> set (rdeps st r)" by blast
    with step.hyps have r: "r \<in> added st" "x \<in> set (rdeps st r)" by auto
    with g4 step.IH have "r \<notin> excluded st" by blast
    with r show ?case by simp
  qed
  with g2 show ?thesis by blast
qed

lemma Downgrade_loop_spec:
  assumes "Downgrade_loop reqs mx rs out st = Some (Return out')" and "dg_inv reqs mx {} st"
  shows "\<exists>news. out' = out @ news \<and>
           (\<forall>m \<in> set news. (\<exists>r \<in> set rs. m \<in> previous_chain reqs mx r) \<and>
              (\<forall>x \<in> required_closure reqs m. under_cap reqs mx x))"
  using assms
proof (induction rs arbitrary: out st)
  case Nil
  then show ?case by simp
next
  case (Cons r rs)
  from Cons.prems(1) obtain st1 where a: "add reqs mx r st = Some st1"
    by (auto split: option.splits)
  from add_spec[OF a Cons.prems(2)] have A: "dg_inv reqs mx {} st1" "r \<in> added st1" by simp_all
  from Cons.prems(1) a obtain x st2 where p: "previous_loop reqs mx r st1 = Some (Inr (x, st2))"
    and rest: "Downgrade_loop reqs mx rs (case x of None \<Rightarrow> out | Some r' \<Rightarrow> out @ [r']) st2 = Some (Return out')"
    by (auto split: option.splits sum.splits prod.splits)
  from previous_loop_spec[OF p A] have P: "dg_inv reqs mx {} st2"
    "\<forall>r'. x = Some r' \<longrightarrow> r' \<in> added st2 - excluded st2 \<and> r' \<in> previous_chain reqs mx r"
    by simp_all
  from Cons.IH[OF rest P(1)] obtain news where news:
    "out' = (case x of None \<Rightarrow> out | Some r' \<Rightarrow> out @ [r']) @ news"
    "\<forall>m \<in> set news. (\<exists>r \<in> set rs. m \<in> previous_chain reqs mx r) \<and>
              (\<forall>x \<in> required_closure reqs m. under_cap reqs mx x)"
    by blast
  show ?case
  proof (cases x)
    case None
    with news show ?thesis by auto
  next
    case (Some r')
    with P(2) have r': "r' \<in> added st2 - excluded st2" "r' \<in> previous_chain reqs mx r" by simp_all
    have "\<forall>x \<in> required_closure reqs r'. under_cap reqs mx x"
      using required_closure_fits[OF P(1) r'(1)] by blast
    with news Some r'(2) show ?thesis
      by (intro exI[of _ "r' # news"]) auto
  qed
qed

lemma Downgrade_max_bound:
  assumes mo: "max_order (Reqs_Max reqs)"
      and "\<forall>t \<in> T. \<exists>c. mx (Path t) = Some c \<and> Reqs_Max reqs c (Version t) = Version t"
  shows "\<forall>t \<in> T \<union> set ds. \<exists>c. Downgrade_max reqs ds mx (Path t) = Some c \<and>
            Reqs_Max reqs c (Version t) = Version t"
  using assms(2)
proof (induction ds arbitrary: mx T)
  case Nil
  then show ?case by simp
next
  case (Cons d ds)
  let ?M = "Reqs_Max reqs"
  have sel: "\<And>a b. ?M a b = a \<or> ?M a b = b" and comm: "\<And>a b. ?M a b = ?M b a"
    and assoc: "\<And>a b c. ?M (?M a b) c = ?M a (?M b c)"
    using mo unfolding max_order_def by blast+
  have idem: "?M a a = a" for a using sel[of a a] by auto
  let ?mx = "case mx (Path d) of
          None \<Rightarrow> mx(Path d \<mapsto> Version d)
        | Some v \<Rightarrow> if ?M v (Version d) \<noteq> Version d then mx(Path d \<mapsto> Version d) else mx"
  have "\<exists>c. ?mx (Path t) = Some c \<and> ?M c (Version t) = Version t" if t: "t \<in> insert d T" for t
  proof (cases "mx (Path d)")
    case None
    show ?thesis
    proof (cases "Path t = Path d")
      case True
      with None t Cons.prems have "t = d \<or> False" by fastforce
      with None show ?thesis by (auto simp: idem)
    next
      case False
      with None t Cons.prems show ?thesis by auto
    qed
  next
    case (Some v)
    show ?thesis
    proof (cases "?M v (Version d) \<noteq> Version d")
      case lower: True
      with sel[of v "Version d"] have vd: "?M v (Version d) = v" by auto
      show ?thesis
      proof (cases "Path t = Path d")
        case False
        with Some lower t Cons.prems show ?thesis by auto
      next
        case True
        show ?thesis
        proof (cases "t = d")
          case True
          with Some lower show ?thesis by (simp add: idem)
        next
          case False
          with t Cons.prems True Some have vt: "?M v (Version t) = Version t" by fastforce
          have "?M (Version d) (Version t) = ?M (Version d) (?M v (Version t))" by (simp add: vt)
          also have "\<dots> = ?M (?M (Version d) v) (Version t)" by (simp add: assoc)
          also have "\<dots> = ?M v (Version t)" using vd comm[of v "Version d"] by simp
          finally show ?thesis using True Some lower vt by simp
        qed
      qed
    next
      case keep: False
      show ?thesis
      proof (cases "t = d")
        case True
        with Some keep show ?thesis by simp
      next
        case False
        with Some keep t Cons.prems show ?thesis by auto
      qed
    qed
  qed
  then have "\<forall>t \<in> insert d T. \<exists>c. ?mx (Path t) = Some c \<and> ?M c (Version t) = Version t" by blast
  from Cons.IH[OF this] show ?case by simp
qed

subsection \<open>A module is excluded only when it does not fit\<close>

lemma required_closure_trans:
  assumes "x \<in> required_closure reqs r" "r \<in> required_closure reqs m"
  shows "x \<in> required_closure reqs m"
  using assms by (induction rule: required_closure.induct) (auto intro: required_closure.step)

lemma fits_required:
  assumes "fits reqs mx m" "Reqs_Required reqs m = Inr list" "r \<in> set list"
  shows "fits reqs mx r"
proof -
  have "r \<in> required_closure reqs m"
    using required_closure.self assms(2,3) by (rule required_closure.step)
  then have "required_closure reqs r \<subseteq> required_closure reqs m"
    by (auto intro: required_closure_trans)
  with assms(1) show ?thesis unfolding fits_def by blast
qed

lemma fits_self: "fits reqs mx m \<Longrightarrow> under_cap reqs mx m \<and> (\<exists>list. Reqs_Required reqs m = Inr list)"
  unfolding fits_def by (blast intro: required_closure.self)

lemma lowered_unique:
  assumes "lowered reqs mx r a" "lowered reqs mx r b"
  shows "a = b"
  using assms
proof (induction arbitrary: b rule: lowered.induct)
  case A: (keep r)
  from A.prems show ?case
  proof (cases rule: lowered.cases)
    case keep
    then show ?thesis by simp
  next
    case (drop p)
    with A.hyps show ?thesis by simp
  next
    case (lower p)
    with A.hyps show ?thesis by simp
  qed
next
  case A: (drop r p)
  from A.prems show ?case
  proof (cases rule: lowered.cases)
    case keep
    with A.hyps show ?thesis by simp
  next
    case (drop p')
    then show ?thesis by simp
  next
    case (lower p')
    with A.hyps show ?thesis by simp
  qed
next
  case A: (lower r p res)
  from A.prems show ?case
  proof (cases rule: lowered.cases)
    case keep
    with A.hyps show ?thesis by simp
  next
    case (drop p')
    with A.hyps show ?thesis by simp
  next
    case (lower p')
    with A.hyps have "lowered reqs mx (clamp_previous reqs mx r p) b" by simp
    then show ?thesis by (rule A.IH)
  qed
qed

lemma exclude_list_excl:
  assumes "exclude_list ms st = Some st'"
      and "dg_excl reqs mx st" and "\<forall>m \<in> set ms. \<not> fits reqs mx m"
  shows "dg_excl reqs mx st'"
proof -
  have "dg_excl reqs mx st \<longrightarrow> (\<forall>m \<in> set ms. \<not> fits reqs mx m) \<longrightarrow> dg_excl reqs mx st'"
  proof (rule exclude_list.raw_induct[where P = "\<lambda>ms st st'.
      dg_excl reqs mx st \<longrightarrow> (\<forall>m \<in> set ms. \<not> fits reqs mx m) \<longrightarrow> dg_excl reqs mx st'",
      OF _ assms(1)], goal_cases)
    case (1 el ms st st')
    note IH = 1(1) and body = 1(2)
    show ?case
    proof (intro impI)
      assume inv: "dg_excl reqs mx st" and nf: "\<forall>m \<in> set ms. \<not> fits reqs mx m"
      show "dg_excl reqs mx st'"
      proof (cases ms)
        case Nil
        with body inv show ?thesis by simp
      next
        case (Cons m rest)
        show ?thesis
        proof (cases "m \<in> excluded st")
          case True
          with body Cons have "el rest st = Some st'" by simp
          from IH[OF this] inv nf Cons show ?thesis by simp
        next
          case False
          let ?st0 = "st\<lparr>excluded := insert m (excluded st)\<rparr>"
          from body Cons False obtain st1 where
            a: "el (rdeps st m) ?st0 = Some st1" and b: "el rest st1 = Some st'"
            by (auto simp: bind_eq_Some_conv)
          have "dg_excl reqs mx ?st0" using inv nf Cons by (auto simp: dg_excl_def)
          moreover have "\<forall>p \<in> set (rdeps ?st0 m). \<not> fits reqs mx p"
          proof
            fix p assume "p \<in> set (rdeps ?st0 m)"
            then have "p \<in> set (rdeps st m)" by simp
            with inv have "\<exists>list. Reqs_Required reqs p = Inr list \<and> m \<in> set list"
              unfolding dg_excl_def by blast
            then obtain list where "Reqs_Required reqs p = Inr list" "m \<in> set list"
              by blast
            with nf Cons show "\<not> fits reqs mx p" by (auto dest: fits_required)
          qed
          ultimately have "dg_excl reqs mx st1" using IH[OF a] by simp
          with IH[OF b] nf Cons show ?thesis by simp
        qed
      qed
    qed
  qed
  with assms(2,3) show ?thesis by blast
qed

lemma exclude_excl:
  assumes "exclude m st = Some st'" "dg_excl reqs mx st" "\<not> fits reqs mx m"
  shows "dg_excl reqs mx st'"
  using exclude_list_excl[OF assms(1)[unfolded exclude_def] assms(2)] assms(3) by simp

lemma add_step_excl:
  fixes al :: "'e Reqs \<Rightarrow> (string \<rightharpoonup> string) \<Rightarrow> module_version \<Rightarrow> module_version list \<Rightarrow>
     dg_state \<Rightarrow> dg_state option"
  assumes IH: "\<And>list st0 st1. al reqs mx r list st0 = Some st1 \<Longrightarrow>
        dg_excl reqs mx st0 \<Longrightarrow> Reqs_Required reqs r = Inr list \<Longrightarrow> dg_excl reqs mx st1"
    and run: "(if r \<in> added st then Some st
             else
               (let st0 = st\<lparr>added := insert r (added st)\<rparr>
                in if (case mx (Path r) of None \<Rightarrow> False | Some v \<Rightarrow> Reqs_Max reqs (Version r) v \<noteq> v)
                   then exclude r st0
                   else
                     (case Reqs_Required reqs r of
                        Inl err \<Rightarrow> exclude r st0
                      | Inr list \<Rightarrow> al reqs mx r list st0))) = Some st1"
    and inv: "dg_excl reqs mx st"
  shows "dg_excl reqs mx st1"
proof (cases "r \<in> added st")
  case True
  with run inv show ?thesis by simp
next
  case False
  let ?st0 = "st\<lparr>added := insert r (added st)\<rparr>"
  have inv0: "dg_excl reqs mx ?st0" using inv by (simp add: dg_excl_def)
  show ?thesis
  proof (cases "under_cap reqs mx r")
    case uc: False
    with run False have ex: "exclude r ?st0 = Some st1" by (simp add: under_cap_iff Let_def)
    from uc have "\<not> fits reqs mx r" by (auto dest: fits_self)
    with ex inv0 show ?thesis by (rule exclude_excl)
  next
    case uc: True
    show ?thesis
    proof (cases "Reqs_Required reqs r")
      case (Inl err)
      with run False uc have ex: "exclude r ?st0 = Some st1" by (simp add: under_cap_iff Let_def)
      from Inl have "\<not> fits reqs mx r" by (auto dest: fits_self)
      with ex inv0 show ?thesis by (rule exclude_excl)
    next
      case (Inr list)
      with run False uc have "al reqs mx r list ?st0 = Some st1" by (simp add: under_cap_iff Let_def)
      from IH[OF this inv0 Inr] show ?thesis .
    qed
  qed
qed


lemma add_loop_excl:
  assumes "add_loop reqs mx m rs st = Some st'"
      and "dg_excl reqs mx st"
      and "Reqs_Required reqs m = Inr (pre @ rs)"
  shows "dg_excl reqs mx st'"
proof -
  have "\<forall>pre. dg_excl reqs mx st \<longrightarrow> Reqs_Required reqs m = Inr (pre @ rs) \<longrightarrow>
          dg_excl reqs mx st'"
  proof (rule add_loop.raw_induct[where P = "\<lambda>reqs mx m rs st st'.
      \<forall>pre. dg_excl reqs mx st \<longrightarrow> Reqs_Required reqs m = Inr (pre @ rs) \<longrightarrow>
          dg_excl reqs mx st'", OF _ assms(1)], goal_cases)
    case (1 al reqs mx m rs st st')
    note IH = 1(1) and body = 1(2)
    show ?case
    proof (intro allI impI)
      fix pre
      assume inv: "dg_excl reqs mx st" and req: "Reqs_Required reqs m = Inr (pre @ rs)"
      show "dg_excl reqs mx st'"
      proof (cases rs)
        case Nil
        with body inv show ?thesis by simp
      next
        case (Cons r rest)
        from body Cons obtain st1 where
          a: "(if r \<in> added st then Some st
             else
               (let st0 = st\<lparr>added := insert r (added st)\<rparr>
                in if (case mx (Path r) of None \<Rightarrow> False | Some v \<Rightarrow> Reqs_Max reqs (Version r) v \<noteq> v)
                   then exclude r st0
                   else
                     (case Reqs_Required reqs r of
                        Inl err \<Rightarrow> exclude r st0
                      | Inr list \<Rightarrow> al reqs mx r list st0))) = Some st1"
          and b: "(if r \<in> excluded st1 then exclude m st1
                    else al reqs mx m rest (st1\<lparr>rdeps := (rdeps st1)(r := rdeps st1 r @ [m])\<rparr>)) = Some st'"
          by (auto simp: bind_eq_Some_conv)
        have IH': "al reqs mx r list st0 = Some st1 \<Longrightarrow>
            dg_excl reqs mx st0 \<Longrightarrow> Reqs_Required reqs r = Inr list \<Longrightarrow>
            dg_excl reqs mx st1" for list st0 st1
          using IH[of reqs mx r list st0 st1] by (metis append_Nil)
        from add_step_excl[of al reqs mx r st st1, OF IH' a inv]
        have A: "dg_excl reqs mx st1" .
        have rm: "r \<in> set (pre @ rs)" using Cons by simp
        show ?thesis
        proof (cases "r \<in> excluded st1")
          case True
          with b have ex: "exclude m st1 = Some st'" by simp
          from True A have "\<not> fits reqs mx r" unfolding dg_excl_def by blast
          with req rm have "\<not> fits reqs mx m" by (blast dest: fits_required)
          with ex A show ?thesis by (rule exclude_excl)
        next
          case False
          let ?st2 = "st1\<lparr>rdeps := (rdeps st1)(r := rdeps st1 r @ [m])\<rparr>"
          from b False have al: "al reqs mx m rest ?st2 = Some st'" by simp
          have inv2: "dg_excl reqs mx ?st2"
            unfolding dg_excl_def
          proof (intro conjI ballI allI impI)
            fix x assume "x \<in> excluded ?st2"
            with A show "\<not> fits reqs mx x" unfolding dg_excl_def by simp
          next
            fix r' p assume p: "p \<in> set (rdeps ?st2 r')"
            show "\<exists>list. Reqs_Required reqs p = Inr list \<and> r' \<in> set list"
            proof (cases "r' = r \<and> p = m")
              case True
              with req rm show ?thesis by blast
            next
              case False
              with p have "p \<in> set (rdeps st1 r')" by (auto split: if_splits)
              with A show ?thesis unfolding dg_excl_def by blast
            qed
          qed
          have req2: "Reqs_Required reqs m = Inr ((pre @ [r]) @ rest)" using req Cons by simp
          from IH[OF al] inv2 req2 show ?thesis by blast
        qed
      qed
    qed
  qed
  with assms(2,3) show ?thesis by blast
qed

lemma add_excl:
  assumes "add reqs mx m st = Some st'" and "dg_excl reqs mx st"
  shows "dg_excl reqs mx st'"
proof (rule add_step_excl[of add_loop reqs mx m st st'])
  show "(if m \<in> added st then Some st
         else let st0 = st\<lparr>added := insert m (added st)\<rparr>
              in if case mx (Path m) of None \<Rightarrow> False | Some v \<Rightarrow> Reqs_Max reqs (Version m) v \<noteq> v
                 then exclude m st0
                 else case Reqs_Required reqs m of Inl err \<Rightarrow> exclude m st0
                      | Inr list \<Rightarrow> add_loop reqs mx m list st0) = Some st'"
    using assms(1) unfolding add_def .
  show "dg_excl reqs mx st" by (rule assms(2))
  show "dg_excl reqs mx st1"
    if "add_loop reqs mx m list st0 = Some st1" "dg_excl reqs mx st0"
       "Reqs_Required reqs m = Inr list" for list st0 st1
    using add_loop_excl[OF that(1,2), of "[]"] that(3) by simp
qed

lemma fits_of_inv:
  assumes inv: "dg_inv reqs mx {} st" and m: "m \<in> added st - excluded st"
  shows "fits reqs mx m"
  unfolding fits_def
proof
  fix x assume "x \<in> required_closure reqs m"
  from required_closure_fits[OF inv m this]
  have x: "x \<in> added st - excluded st" "under_cap reqs mx x" by simp_all
  from inv x(1) have "\<exists>list. Reqs_Required reqs x = Inr list" unfolding dg_inv_def by blast
  with x(2) show "under_cap reqs mx x \<and> (\<exists>list. Reqs_Required reqs x = Inr list)" by simp
qed

lemma previous_loop_lowered:
  fixes reqs :: "'e Reqs"
  assumes "previous_loop reqs mx r st = Some (Inr (x, st'))"
      and "dg_inv reqs mx {} st" and "dg_excl reqs mx st" and "r \<in> added st"
  shows "dg_excl reqs mx st' \<and> lowered reqs mx r x"
proof -
  have "dg_inv reqs mx {} st \<longrightarrow> dg_excl reqs mx st \<longrightarrow> r \<in> added st \<longrightarrow>
     (\<forall>y st''. (Inr (x, st') :: 'e + module_version option \<times> dg_state) = Inr (y, st'') \<longrightarrow>
         dg_excl reqs mx st'' \<and> lowered reqs mx r y)"
  proof (rule previous_loop.raw_induct[where P = "\<lambda>(reqs :: 'e Reqs) mx r st
        (res :: 'e + module_version option \<times> dg_state).
      dg_inv reqs mx {} st \<longrightarrow> dg_excl reqs mx st \<longrightarrow> r \<in> added st \<longrightarrow>
      (\<forall>x st'. res = Inr (x, st') \<longrightarrow> dg_excl reqs mx st' \<and> lowered reqs mx r x)",
      OF _ assms(1)], goal_cases)
    case (1 pl reqs mx r st res)
    note IH = 1(1) and body = 1(2)
    show ?case
    proof (intro impI allI)
      fix x st'
      assume inv: "dg_inv reqs mx {} st" and ex: "dg_excl reqs mx st" and r: "r \<in> added st"
        and res: "res = Inr (x, st')"
      show "dg_excl reqs mx st' \<and> lowered reqs mx r x"
      proof (cases "r \<in> excluded st")
        case False
        with body res have "x = Some r" "st' = st" by simp_all
        moreover from False r inv have "fits reqs mx r" by (auto intro: fits_of_inv)
        ultimately show ?thesis using ex by (simp add: lowered.keep)
      next
        case True
        with ex have nf: "\<not> fits reqs mx r" unfolding dg_excl_def by blast
        from True body res obtain p0 where p0: "Reqs_Previous reqs r = Inr p0"
          by (cases "Reqs_Previous reqs r") auto
        let ?p = "clamp_previous reqs mx r p0"
        show ?thesis
        proof (cases "Version ?p = none")
          case vn: True
          with body res True p0 have "x = None" "st' = st" by (simp_all add: Let_def)
          with ex lowered.drop[OF nf p0 vn] show ?thesis by simp
        next
          case vn: False
          with body res True p0 obtain st1 where
            a: "add reqs mx ?p st = Some st1" and b: "pl reqs mx ?p st1 = Some res"
            by (auto simp: Let_def bind_eq_Some_conv)
          from add_spec[OF a inv] have A: "dg_inv reqs mx {} st1" "?p \<in> added st1" by simp_all
          from add_excl[OF a ex] have E: "dg_excl reqs mx st1" .
          from IH[OF b] A E res have "dg_excl reqs mx st'" "lowered reqs mx ?p x" by blast+
          with lowered.lower[OF nf p0 vn] show ?thesis by simp
        qed
      qed
    qed
  qed
  with assms(2-4) show ?thesis by blast
qed

lemma Downgrade_loop_lowered:
  assumes "Downgrade_loop reqs mx rs out st = Some (Return out')"
      and "dg_inv reqs mx {} st" and "dg_excl reqs mx st"
  shows "\<exists>results. list_all2 (lowered reqs mx) rs results \<and>
           out' = out @ concat (map (\<lambda>x. case x of None \<Rightarrow> [] | Some m \<Rightarrow> [m]) results)"
  using assms
proof (induction rs arbitrary: out st)
  case Nil
  then show ?case by simp
next
  case (Cons r rs)
  from Cons.prems(1) obtain st1 where a: "add reqs mx r st = Some st1"
    by (auto split: option.splits)
  from add_spec[OF a Cons.prems(2)] have A: "dg_inv reqs mx {} st1" "r \<in> added st1" by simp_all
  from add_excl[OF a Cons.prems(3)] have E: "dg_excl reqs mx st1" .
  from Cons.prems(1) a obtain x st2 where p: "previous_loop reqs mx r st1 = Some (Inr (x, st2))"
    and rest: "Downgrade_loop reqs mx rs (case x of None \<Rightarrow> out | Some r' \<Rightarrow> out @ [r']) st2 = Some (Return out')"
    by (auto split: option.splits sum.splits prod.splits)
  from previous_loop_spec[OF p A] have P: "dg_inv reqs mx {} st2" by simp
  from previous_loop_lowered[OF p A(1) E A(2)] have L: "dg_excl reqs mx st2" "lowered reqs mx r x"
    by simp_all
  from Cons.IH[OF rest P L(1)] obtain results where results:
    "list_all2 (lowered reqs mx) rs results"
    "out' = (case x of None \<Rightarrow> out | Some r' \<Rightarrow> out @ [r'])
        @ concat (map (\<lambda>x. case x of None \<Rightarrow> [] | Some m \<Rightarrow> [m]) results)"
    by blast
  have "list_all2 (lowered reqs mx) (r # rs) (x # results)" using L(2) results(1) by simp
  moreover have "out' = out @ concat (map (\<lambda>x. case x of None \<Rightarrow> [] | Some m \<Rightarrow> [m]) (x # results))"
    using results(2) by (cases x) simp_all
  ultimately show ?case by blast
qed

text \<open>
  Claim C7, as stated: for every module \<open>t\<close> to downgrade, the version in the output for
  \<open>t.path\<close> satisfies \<open>Max(version, t.version) = t.version\<close>. The root is the first
  element of the output whatever is asked (line 437): asked to downgrade the main module to
  version \<open>1\<close>, \<open>Downgrade\<close> returns the main module with its own version, which \<open>Max\<close>
  puts above \<open>1\<close>.
\<close>

theorem Downgrade_bound_counterexample:
  "Downgrade main_module (example_reqs [] []) [\<lparr>Path = ''main'', Version = ''1''\<rparr>]
     = Some (Return [main_module]) \<and>
   Path main_module = Path \<lparr>Path = ''main'', Version = ''1''\<rparr> \<and>
   Reqs_Max (example_reqs [] []) (Version main_module) (Version \<lparr>Path = ''main'', Version = ''1''\<rparr>)
     \<noteq> Version \<lparr>Path = ''main'', Version = ''1''\<rparr>"
  by (simp add: Downgrade_eval example_eval)

text \<open>
  Claim C7, amended: when \<open>Downgrade\<close> returns a list, it is the root followed, for the
  requirements of the root in their order, by what each is lowered to: the requirement
  itself when it fits (it and all it requires, directly or not, is under the bound of its
  path and loads), else the first module that fits on the walk along \<open>Previous\<close> (with the
  step of lines 455 to 457), and nothing when that walk reaches the version \<open>none\<close>
  first. So every element \<open>m\<close> after the head is reached from a requirement of the root by
  walking \<open>Previous\<close>, every module it requires, directly or not, is under the bound of
  its path, and, when \<open>Max\<close> is the maximum of a total order, it is at most every module
  to downgrade of the same path (\<open>Max(m.version, t.version) = t.version\<close>). The head is
  the root whatever is asked.
\<close>

theorem Downgrade_bound:
  assumes dg: "Downgrade target reqs downgrade = Some (Return out)"
  shows "\<exists>list results. Reqs_Required reqs target = Inr list \<and>
     list_all2 (lowered reqs (Downgrade_cap reqs list downgrade)) list results \<and>
     out = target # concat (map (\<lambda>x. case x of None \<Rightarrow> [] | Some m \<Rightarrow> [m]) results) \<and>
     out \<noteq> [] \<and> hd out = target \<and>
     (\<forall>m \<in> set (tl out).
        (max_order (Reqs_Max reqs) \<longrightarrow>
           (\<forall>t \<in> set downgrade. Path t = Path m \<longrightarrow> Reqs_Max reqs (Version m) (Version t) = Version t)) \<and>
        (\<exists>r \<in> set list. m \<in> previous_chain reqs (Downgrade_cap reqs list downgrade) r) \<and>
        (\<forall>x \<in> required_closure reqs m. under_cap reqs (Downgrade_cap reqs list downgrade) x))"
proof -
  let ?M = "Reqs_Max reqs"
  from dg obtain list where list: "Reqs_Required reqs target = Inr list"
    by (cases "Reqs_Required reqs target") (auto simp: Downgrade_def)
  let ?mx = "Downgrade_cap reqs list downgrade"
  let ?st0 = "\<lparr>added = {}, rdeps = (\<lambda>_. []), excluded = {}\<rparr>"
  from dg list have loop: "Downgrade_loop reqs ?mx list [target] ?st0 = Some (Return out)"
    by (simp add: Downgrade_def)
  have inv0: "dg_inv reqs ?mx {} ?st0" by (simp add: dg_inv_def)
  have ex0: "dg_excl reqs ?mx ?st0" by (simp add: dg_excl_def)
  from Downgrade_loop_spec[OF loop inv0] obtain news where news: "out = [target] @ news"
    "\<forall>m \<in> set news. (\<exists>r \<in> set list. m \<in> previous_chain reqs ?mx r) \<and>
        (\<forall>x \<in> required_closure reqs m. under_cap reqs ?mx x)"
    by blast
  from Downgrade_loop_lowered[OF loop inv0 ex0] obtain results where results:
    "list_all2 (lowered reqs ?mx) list results"
    "out = [target] @ concat (map (\<lambda>x. case x of None \<Rightarrow> [] | Some m \<Rightarrow> [m]) results)"
    by blast
  have "?M (Version m) (Version t) = Version t"
    if mo: "max_order ?M" and m: "m \<in> set news" and t: "t \<in> set downgrade" "Path t = Path m" for m t
  proof -
    have assoc: "\<And>a b c. ?M (?M a b) c = ?M a (?M b c)" using mo unfolding max_order_def by blast
    have cap: "\<forall>t \<in> {} \<union> set downgrade. \<exists>c. ?mx (Path t) = Some c \<and> ?M c (Version t) = Version t"
      unfolding Downgrade_cap_def by (rule Downgrade_max_bound[OF mo]) simp
    from cap t obtain c where c: "?mx (Path m) = Some c" "?M c (Version t) = Version t" by auto
    from news(2) m have "under_cap reqs ?mx m" by (blast intro: required_closure.self)
    with c have mc: "?M (Version m) c = c" by (simp add: under_cap_def)
    have "?M (Version m) (Version t) = ?M (Version m) (?M c (Version t))" by (simp add: c)
    also have "\<dots> = ?M (?M (Version m) c) (Version t)" by (simp add: assoc)
    also have "\<dots> = Version t" by (simp add: mc c)
    finally show ?thesis .
  qed
  then have bound: "\<forall>m \<in> set news. max_order ?M \<longrightarrow>
      (\<forall>t \<in> set downgrade. Path t = Path m \<longrightarrow> ?M (Version m) (Version t) = Version t)"
    by blast
  have tl: "tl out = news" "out \<noteq> []" "hd out = target" using news(1) by simp_all
  show ?thesis
  proof (intro exI conjI)
    show "Reqs_Required reqs target = Inr list" by (rule list)
    show "list_all2 (lowered reqs ?mx) list results" by (rule results(1))
    show "out = target # concat (map (\<lambda>x. case x of None \<Rightarrow> [] | Some m \<Rightarrow> [m]) results)"
      using results(2) by simp
    show "out \<noteq> []" "hd out = target" by (rule tl)+
    show "\<forall>m \<in> set (tl out).
        (max_order ?M \<longrightarrow>
           (\<forall>t \<in> set downgrade. Path t = Path m \<longrightarrow> ?M (Version m) (Version t) = Version t)) \<and>
        (\<exists>r \<in> set list. m \<in> previous_chain reqs ?mx r) \<and>
        (\<forall>x \<in> required_closure reqs m. under_cap reqs ?mx x)"
      unfolding tl(1) using bound news(2) by blast
  qed
qed

theorem Downgrade_bound_witness:
  "max_order (Reqs_Max
     (example_reqs [(main_module, Inr [\<lparr>Path = ''A'', Version = ''3''\<rparr>]),
                    (\<lparr>Path = ''A'', Version = ''2''\<rparr>, Inr [\<lparr>Path = ''C'', Version = ''5''\<rparr>]),
                    (\<lparr>Path = ''C'', Version = ''5''\<rparr>, Inl ''no go.mod'')]
                   [(\<lparr>Path = ''A'', Version = ''3''\<rparr>, Inr \<lparr>Path = ''A'', Version = ''2''\<rparr>),
                    (\<lparr>Path = ''A'', Version = ''2''\<rparr>, Inr \<lparr>Path = ''A'', Version = ''1''\<rparr>)])) \<and>
   Downgrade main_module
     (example_reqs [(main_module, Inr [\<lparr>Path = ''A'', Version = ''3''\<rparr>]),
                    (\<lparr>Path = ''A'', Version = ''2''\<rparr>, Inr [\<lparr>Path = ''C'', Version = ''5''\<rparr>]),
                    (\<lparr>Path = ''C'', Version = ''5''\<rparr>, Inl ''no go.mod'')]
                   [(\<lparr>Path = ''A'', Version = ''3''\<rparr>, Inr \<lparr>Path = ''A'', Version = ''2''\<rparr>),
                    (\<lparr>Path = ''A'', Version = ''2''\<rparr>, Inr \<lparr>Path = ''A'', Version = ''1''\<rparr>)])
     [\<lparr>Path = ''A'', Version = ''2''\<rparr>]
     = Some (Return [main_module, \<lparr>Path = ''A'', Version = ''1''\<rparr>]) \<and>
   lowered
     (example_reqs [(main_module, Inr [\<lparr>Path = ''A'', Version = ''3''\<rparr>]),
                    (\<lparr>Path = ''A'', Version = ''2''\<rparr>, Inr [\<lparr>Path = ''C'', Version = ''5''\<rparr>]),
                    (\<lparr>Path = ''C'', Version = ''5''\<rparr>, Inl ''no go.mod'')]
                   [(\<lparr>Path = ''A'', Version = ''3''\<rparr>, Inr \<lparr>Path = ''A'', Version = ''2''\<rparr>),
                    (\<lparr>Path = ''A'', Version = ''2''\<rparr>, Inr \<lparr>Path = ''A'', Version = ''1''\<rparr>)])
     [''A'' \<mapsto> ''2''] \<lparr>Path = ''A'', Version = ''3''\<rparr> (Some \<lparr>Path = ''A'', Version = ''1''\<rparr>) \<and>
   example_Max ''1'' ''2'' = ''2'' \<and>
   \<lparr>Path = ''A'', Version = ''1''\<rparr> \<in> previous_chain
     (example_reqs [(main_module, Inr [\<lparr>Path = ''A'', Version = ''3''\<rparr>]),
                    (\<lparr>Path = ''A'', Version = ''2''\<rparr>, Inr [\<lparr>Path = ''C'', Version = ''5''\<rparr>]),
                    (\<lparr>Path = ''C'', Version = ''5''\<rparr>, Inl ''no go.mod'')]
                   [(\<lparr>Path = ''A'', Version = ''3''\<rparr>, Inr \<lparr>Path = ''A'', Version = ''2''\<rparr>),
                    (\<lparr>Path = ''A'', Version = ''2''\<rparr>, Inr \<lparr>Path = ''A'', Version = ''1''\<rparr>)])
     [''A'' \<mapsto> ''2''] \<lparr>Path = ''A'', Version = ''3''\<rparr> \<and>
   under_cap
     (example_reqs [(main_module, Inr [\<lparr>Path = ''A'', Version = ''3''\<rparr>]),
                    (\<lparr>Path = ''A'', Version = ''2''\<rparr>, Inr [\<lparr>Path = ''C'', Version = ''5''\<rparr>]),
                    (\<lparr>Path = ''C'', Version = ''5''\<rparr>, Inl ''no go.mod'')]
                   [(\<lparr>Path = ''A'', Version = ''3''\<rparr>, Inr \<lparr>Path = ''A'', Version = ''2''\<rparr>),
                    (\<lparr>Path = ''A'', Version = ''2''\<rparr>, Inr \<lparr>Path = ''A'', Version = ''1''\<rparr>)])
     [''A'' \<mapsto> ''2''] \<lparr>Path = ''A'', Version = ''1''\<rparr>"
proof -
  let ?A1 = "\<lparr>Path = ''A'', Version = ''1''\<rparr>" and ?A2 = "\<lparr>Path = ''A'', Version = ''2''\<rparr>"
  let ?A3 = "\<lparr>Path = ''A'', Version = ''3''\<rparr>"
  let ?reqs = "example_reqs [(main_module, Inr [?A3]), (?A2, Inr [\<lparr>Path = ''C'', Version = ''5''\<rparr>]),
                    (\<lparr>Path = ''C'', Version = ''5''\<rparr>, Inl ''no go.mod'')]
                   [(?A3, Inr ?A2), (?A2, Inr ?A1)]"
  have mo: "max_order (Reqs_Max ?reqs)" by (simp add: example_reqs_def max_order_example_Max)
  have dg: "Downgrade main_module ?reqs [?A2] = Some (Return [main_module, ?A1])"
    by (simp add: Downgrade_eval example_eval)
  have rq: "Reqs_Required ?reqs main_module = Inr [?A3]" by (simp add: example_eval)
  have cap: "Downgrade_cap ?reqs [?A3] [?A2] = [''A'' \<mapsto> ''2'']"
    by (simp add: Downgrade_cap_def example_eval)
  from Downgrade_bound[OF dg] obtain list results where
    l: "Reqs_Required ?reqs main_module = Inr list"
    and r0: "list_all2 (lowered ?reqs (Downgrade_cap ?reqs list [?A2])) list results"
       "[main_module, ?A1] = main_module # concat (map (\<lambda>x. case x of None \<Rightarrow> [] | Some m \<Rightarrow> [m]) results)"
    and b0: "\<forall>m \<in> set (tl [main_module, ?A1]).
        (max_order (Reqs_Max ?reqs) \<longrightarrow>
           (\<forall>t \<in> set [?A2]. Path t = Path m \<longrightarrow> Reqs_Max ?reqs (Version m) (Version t) = Version t)) \<and>
        (\<exists>r \<in> set list. m \<in> previous_chain ?reqs (Downgrade_cap ?reqs list [?A2]) r) \<and>
        (\<forall>x \<in> required_closure ?reqs m. under_cap ?reqs (Downgrade_cap ?reqs list [?A2]) x)"
    by blast
  from l rq have list: "list = [?A3]" by simp
  note r = r0[unfolded list cap] and b = b0[unfolded list cap]
  from r(1) obtain x where x: "results = [x]" "lowered ?reqs [''A'' \<mapsto> ''2''] ?A3 x"
    by (auto simp: list_all2_Cons1)
  from r(2) x(1) have "x = Some ?A1" by (cases x) simp_all
  with x(2) have low: "lowered ?reqs [''A'' \<mapsto> ''2''] ?A3 (Some ?A1)" by simp
  from b mo
  have "Reqs_Max ?reqs ''1'' ''2'' = ''2''" "?A1 \<in> previous_chain ?reqs [''A'' \<mapsto> ''2''] ?A3"
    "under_cap ?reqs [''A'' \<mapsto> ''2''] ?A1"
    by (auto intro: required_closure.self)
  with mo dg low show ?thesis by (simp add: example_reqs_def)
qed

section \<open>\<open>Req\<close> on the paths of the build list\<close>

subsection \<open>A build list is returned only when no error was recorded\<close>

lemma enqueue_seen:
  assumes "enqueue g node ns (neededBy, q) = (neededBy', q')"
  shows "{p. neededBy' p \<noteq> None} = {p. neededBy p \<noteq> None} \<union> g ` set ns"
    and "set q' \<subseteq> set q \<union> g ` set ns"
    and "set q \<subseteq> set q'"
    and "g ` set ns \<subseteq> {p. neededBy p \<noteq> None} \<union> set q'"
  using assms
proof (induction ns arbitrary: neededBy q)
  case Nil
  { case 1 then show ?case by simp }
  { case 2 then show ?case by simp }
  { case 3 then show ?case by simp }
  { case 4 then show ?case by simp }
next
  case (Cons x ns)
  {
    case 1
    show ?case
    proof (cases "neededBy (g x) \<noteq> None")
      case True
      with 1 have "enqueue g node ns (neededBy, q) = (neededBy', q')" by simp
      from Cons.IH(1)[OF this] True show ?thesis by auto
    next
      case False
      with 1 have "enqueue g node ns (neededBy(g x := Some node), q @ [g x]) = (neededBy', q')"
        by (simp add: Let_def)
      from Cons.IH(1)[OF this] show ?thesis by auto
    qed
  }
  {
    case 2
    show ?case
    proof (cases "neededBy (g x) \<noteq> None")
      case True
      with 2 have "enqueue g node ns (neededBy, q) = (neededBy', q')" by simp
      from Cons.IH(2)[OF this] show ?thesis by auto
    next
      case False
      with 2 have "enqueue g node ns (neededBy(g x := Some node), q @ [g x]) = (neededBy', q')"
        by (simp add: Let_def)
      from Cons.IH(2)[OF this] show ?thesis by auto
    qed
  }
  {
    case 3
    show ?case
    proof (cases "neededBy (g x) \<noteq> None")
      case True
      with 3 have "enqueue g node ns (neededBy, q) = (neededBy', q')" by simp
      from Cons.IH(3)[OF this] show ?thesis by auto
    next
      case False
      with 3 have "enqueue g node ns (neededBy(g x := Some node), q @ [g x]) = (neededBy', q')"
        by (simp add: Let_def)
      from Cons.IH(3)[OF this] show ?thesis by auto
    qed
  }
  {
    case 4
    show ?case
    proof (cases "neededBy (g x) \<noteq> None")
      case True
      with 4 have "enqueue g node ns (neededBy, q) = (neededBy', q')" by simp
      from Cons.IH(4)[OF this] True show ?thesis by auto
    next
      case False
      with 4 have en: "enqueue g node ns (neededBy(g x := Some node), q @ [g x]) = (neededBy', q')"
        by (simp add: Let_def)
      have "g y \<in> {p. neededBy p \<noteq> None} \<union> set q'" if "y \<in> set ns" for y
      proof (cases "g y = g x")
        case True
        with Cons.IH(3)[OF en] show ?thesis by auto
      next
        case False
        with Cons.IH(4)[OF en] that show ?thesis by auto
      qed
      moreover have "g x \<in> set q'" using Cons.IH(3)[OF en] by auto
      ultimately show ?thesis by auto
    qed
  }
qed

lemma find_error_falls_through:
  assumes "find_error g neededBy q = Some None" and "search_inv g target neededBy q"
  shows "\<exists>neededBy'. search_inv g target neededBy' []"
proof -
  have "None = (None :: (module_version list, 'a) outcome option) \<longrightarrow> search_inv g target neededBy q \<longrightarrow>
          (\<exists>neededBy'. search_inv g target neededBy' [])"
  proof (rule find_error.raw_induct[where P = "\<lambda>(g :: module_version \<rightharpoonup> 'a modGraphNode) neededBy q
        (y :: (module_version list, 'a) outcome option).
      y = None \<longrightarrow> search_inv g target neededBy q \<longrightarrow> (\<exists>neededBy'. search_inv g target neededBy' [])",
      OF _ assms(1)], goal_cases)
    case (1 fe g neededBy q y)
    note IH = 1(1) and body = 1(2)
    show ?case
    proof (intro impI)
      assume y: "y = None" and inv: "search_inv g target neededBy q"
      show "\<exists>neededBy'. search_inv g target neededBy' []"
      proof (cases q)
        case Nil
        with inv show ?thesis by blast
      next
        case (Cons ptr q')
        with body y obtain node where ptr: "ptr = Some node" by (cases ptr) auto
        with body y Cons have ne: "node_err node = None"
          by (cases "node_err node") (auto split: option.splits)
        obtain neededBy' q'' where en: "enqueue g node (neighbors node) (neededBy, q') = (neededBy', q'')"
          by (cases "enqueue g node (neighbors node) (neededBy, q')")
        with body Cons ptr ne have fe: "fe g neededBy' q'' = Some y" by simp
        note es = enqueue_seen[OF en]
        have sn: "seen g target neededBy' = seen g target neededBy \<union> g ` set (neighbors node)"
          unfolding seen_def es(1) by auto
        have "search_inv g target neededBy' q''"
          unfolding search_inv_def
        proof (intro conjI ballI)
          show "set q'' \<subseteq> seen g target neededBy'"
            using es(2) inv Cons unfolding sn search_inv_def by auto
        next
          fix p assume p: "p \<in> seen g target neededBy' - set q''"
          show "\<exists>n. p = Some n \<and> node_err n = None \<and>
            (\<forall>x \<in> set (neighbors n). g x \<in> seen g target neededBy')"
          proof (cases "p = ptr")
            case True
            with ptr ne sn show ?thesis by auto
          next
            case False
            have "p \<in> seen g target neededBy - set q"
            proof -
              have "p \<in> set q''" if "p \<in> g ` set (neighbors node)" "p \<notin> seen g target neededBy"
                using that es(4) unfolding seen_def by auto
              with p have "p \<in> seen g target neededBy" unfolding sn by blast
              moreover have "p \<notin> set q" using p False es(3) Cons by auto
              ultimately show ?thesis by blast
            qed
            with inv obtain n where "p = Some n" "node_err n = None"
                "\<forall>x \<in> set (neighbors n). g x \<in> seen g target neededBy"
              unfolding search_inv_def by blast
            then show ?thesis unfolding sn by auto
          qed
        qed
        with IH[OF fe] y show ?thesis by blast
      qed
    qed
  qed
  with assms(2) show ?thesis by blast
qed

lemma BuildList_Return_no_error:
  assumes "BuildList pick target reqs = Some (Return list)"
  shows "\<exists>st. explore pick target reqs None = Some st \<and> finalize reqs target st = Return list \<and>
              \<not> haveErr st"
proof -
  from assms have bl: "buildList pick target reqs None = Some (Return list)"
    by (simp add: BuildList_def)
  from buildList_Return[OF bl] obtain st where
    st: "explore pick target reqs None = Some st" and fin: "finalize reqs target st = Return list"
    by blast
  from explore_invs[OF st] obtain w where inv: "explore_inv target reqs None w st"
    by (auto simp: explore_invs_def)
  let ?g = "modGraph st"
  have "\<not> haveErr st"
  proof
    assume he: "haveErr st"
    with bl st have "find_error ?g (\<lambda>_. None) [?g target] = Some None"
      by (auto simp: buildList_def split: option.splits dest: find_error_result)
    moreover have "search_inv ?g target (\<lambda>_. None) [?g target]"
      by (simp add: search_inv_def seen_def)
    ultimately obtain nb where nb: "search_inv ?g target nb []"
      using find_error_falls_through by blast
    have all: "?g m \<in> seen ?g target nb" if "m \<in> reachable reqs target" for m
      using that
    proof induction
      case root
      show ?case by (simp add: seen_def)
    next
      case (step u rs r)
      from step.IH nb obtain n where n: "?g u = Some n"
          "\<forall>x\<in>set (neighbors n). ?g x \<in> seen ?g target nb"
        unfolding search_inv_def by force
      from n(1) have "u \<in> dom ?g" by auto
      with n(1) inv have "n = visit_node reqs None u" unfolding explore_inv_def by auto
      then have "neighbors n = rs" using step.hyps
        by (simp add: visit_node_None neighbors_def visit_adds_None zero_version_def)
      with n(2) step.hyps show ?case by auto
    qed
    from he inv obtain m where m: "m \<in> dom ?g" "node_err (visit_node reqs None m) \<noteq> None"
      unfolding explore_inv_def by auto
    from m(1) have "m \<in> reachable reqs target" using explore_reachable[OF st] by simp
    from all[OF this] nb obtain n where "?g m = Some n" "node_err n = None"
      unfolding search_inv_def by force
    moreover from m(1) inv have "?g m = Some (visit_node reqs None m)"
      unfolding explore_inv_def by auto
    ultimately show False using m(2) by simp
  qed
  with st fin show ?thesis by blast
qed

subsection \<open>The two walks of \<open>Req\<close> end\<close>

lemma walk_list_total:
  fixes reqs :: "'e Reqs"
  assumes fin: "finite V"
      and cl: "\<forall>m \<in> V. \<exists>rs. Reqs_Required reqs m = Inr rs \<and> set rs \<subseteq> V"
  shows "card (V - dom (fst st)) \<le> n \<Longrightarrow> set ms \<subseteq> V \<Longrightarrow> set (snd st) \<subseteq> V \<Longrightarrow>
         (\<forall>m rs. fst st m = Some rs \<longrightarrow> set rs \<subseteq> V) \<Longrightarrow>
     \<exists>st'. walk_list reqs ms st = Some (Inr st') \<and> dom (fst st) \<subseteq> dom (fst st') \<and>
           set ms \<subseteq> dom (fst st') \<and> set (snd st') \<subseteq> V \<and>
           (\<forall>m rs. fst st' m = Some rs \<longrightarrow> set rs \<subseteq> V)"
proof (induction n arbitrary: ms st rule: less_induct)
  case (less n)
  note outer = less.IH
  from less.prems show ?case
  proof (induction ms arbitrary: st)
    case Nil
    then show ?case by (subst walk_list.simps) simp
  next
    case (Cons m rest)
    show ?case
    proof (cases "fst st m \<noteq> None")
      case True
      have eq: "walk_list reqs (m # rest) st = walk_list reqs rest st"
        using True by (subst walk_list.simps) simp
      from Cons.prems have "set rest \<subseteq> V" by simp
      from Cons.IH[OF Cons.prems(1) this Cons.prems(3) Cons.prems(4)] obtain st' where
        st': "walk_list reqs rest st = Some (Inr st')" "dom (fst st) \<subseteq> dom (fst st')"
          "set rest \<subseteq> dom (fst st')" "set (snd st') \<subseteq> V"
          "\<forall>m rs. fst st' m = Some rs \<longrightarrow> set rs \<subseteq> V"
        by blast
      from True st'(2) have "m \<in> dom (fst st')" by auto
      with st' show ?thesis unfolding eq by auto
    next
      case False
      from Cons.prems have mV: "m \<in> V" and restV: "set rest \<subseteq> V" by simp_all
      from cl mV obtain rs where rs: "Reqs_Required reqs m = Inr rs" "set rs \<subseteq> V" by blast
      let ?st1 = "((fst st)(m \<mapsto> rs), snd st)"
      have "V - dom (fst ?st1) = (V - dom (fst st)) - {m}" by auto
      moreover have "m \<in> V - dom (fst st)" using mV False by auto
      moreover have "finite (V - dom (fst st))" using fin by simp
      ultimately have "card (V - dom (fst ?st1)) < card (V - dom (fst st))"
        by (metis card_Diff1_less)
      with Cons.prems(1) have lt: "card (V - dom (fst ?st1)) < n" by simp
      have "\<exists>st'. walk_list reqs rs ?st1 = Some (Inr st') \<and> dom (fst ?st1) \<subseteq> dom (fst st') \<and>
           set rs \<subseteq> dom (fst st') \<and> set (snd st') \<subseteq> V \<and>
           (\<forall>m rs. fst st' m = Some rs \<longrightarrow> set rs \<subseteq> V)"
      proof (rule outer[OF lt])
        show "card (V - dom (fst ?st1)) \<le> card (V - dom (fst ?st1))" by simp
        show "set rs \<subseteq> V" by (rule rs(2))
        show "set (snd ?st1) \<subseteq> V" using Cons.prems(3) by simp
        show "\<forall>x xs. fst ?st1 x = Some xs \<longrightarrow> set xs \<subseteq> V"
          using Cons.prems(4) rs(2) by auto
      qed
      then obtain st2 where
        st2: "walk_list reqs rs ?st1 = Some (Inr st2)" "dom (fst ?st1) \<subseteq> dom (fst st2)"
          "set (snd st2) \<subseteq> V" "\<forall>m rs. fst st2 m = Some rs \<longrightarrow> set rs \<subseteq> V"
        by blast
      let ?st3 = "(fst st2, snd st2 @ [m])"
      have sub: "dom (fst st) \<subseteq> dom (fst st2)" using st2(2) by auto
      then have "V - dom (fst ?st3) \<subseteq> V - dom (fst st)" by auto
      then have "card (V - dom (fst ?st3)) \<le> card (V - dom (fst st))"
        using fin by (intro card_mono) auto
      with Cons.prems(1) have le: "card (V - dom (fst ?st3)) \<le> n" by simp
      have "set (snd ?st3) \<subseteq> V" using st2(3) mV by simp
      moreover have "\<forall>x xs. fst ?st3 x = Some xs \<longrightarrow> set xs \<subseteq> V" using st2(4) by simp
      ultimately obtain st' where
        st': "walk_list reqs rest ?st3 = Some (Inr st')" "dom (fst ?st3) \<subseteq> dom (fst st')"
          "set rest \<subseteq> dom (fst st')" "set (snd st') \<subseteq> V"
          "\<forall>m rs. fst st' m = Some rs \<longrightarrow> set rs \<subseteq> V"
        using Cons.IH[OF le restV] by blast
      have eq: "walk_list reqs (m # rest) st = Some (Inr st')"
        using False rs(1) st2(1) st'(1) by (subst walk_list.simps) simp
      have "m \<in> dom (fst st')" using st2(2) st'(2) by auto
      with st' sub show ?thesis unfolding eq by auto
    qed
  qed
qed

lemma have_list_total:
  assumes fin: "finite U" and cl: "\<forall>m rs. reqCache m = Some rs \<longrightarrow> set rs \<subseteq> U"
  shows "card (U - have) \<le> n \<Longrightarrow> set ms \<subseteq> U \<Longrightarrow>
     \<exists>have'. have_list reqCache ms have = Some have' \<and> have \<union> set ms \<subseteq> have'"
proof (induction n arbitrary: ms "have" rule: less_induct)
  case (less n)
  note outer = less.IH
  from less.prems show ?case
  proof (induction ms arbitrary: "have")
    case Nil
    then show ?case by (subst have_list.simps) simp
  next
    case (Cons m rest)
    from Cons.prems have mU: "m \<in> U" and restU: "set rest \<subseteq> U" by simp_all
    show ?case
    proof (cases "m \<in> have")
      case True
      have eq: "have_list reqCache (m # rest) have = have_list reqCache rest have"
        using True by (subst have_list.simps) simp
      from Cons.IH[OF Cons.prems(1) restU] True show ?thesis unfolding eq by auto
    next
      case False
      have cU: "set (cached reqCache m) \<subseteq> U"
      proof (cases "reqCache m")
        case None
        then show ?thesis by (simp add: cached_def)
      next
        case (Some rs)
        with cl show ?thesis by (simp add: cached_def)
      qed
      have "U - insert m have = (U - have) - {m}" by auto
      moreover have "m \<in> U - have" using mU False by auto
      moreover have "finite (U - have)" using fin by simp
      ultimately have "card (U - insert m have) < card (U - have)"
        by (metis card_Diff1_less)
      with Cons.prems(1) have lt: "card (U - insert m have) < n" by simp
      from outer[OF lt order_refl cU] obtain have1 where
        h1: "have_list reqCache (cached reqCache m) (insert m have) = Some have1"
          "insert m have \<union> set (cached reqCache m) \<subseteq> have1"
        by blast
      then have "U - have1 \<subseteq> U - have" by auto
      then have "card (U - have1) \<le> card (U - have)" using fin by (intro card_mono) auto
      with Cons.prems(1) have le: "card (U - have1) \<le> n" by simp
      from Cons.IH[OF le restU] obtain have' where
        h': "have_list reqCache rest have1 = Some have'" "have1 \<union> set rest \<subseteq> have'"
        by blast
      have eq: "have_list reqCache (m # rest) have = Some have'"
        using False h1(1) h'(1) by (subst have_list.simps) simp
      show ?thesis unfolding eq using h1(2) h'(2) by auto
    qed
  qed
qed

lemma Req_max_distinct:
  "distinct (map Path list) \<Longrightarrow> Path ` set list \<inter> dom mx = {} \<Longrightarrow>
   Req_max reqs list mx =
     (\<lambda>p. case map_of (map (\<lambda>m. (Path m, Version m)) list) p of Some v \<Rightarrow> Some v | None \<Rightarrow> mx p)"
proof (induction list arbitrary: mx)
  case Nil
  then show ?case by simp
next
  case (Cons m ms)
  have none: "mx (Path m) = None" using Cons.prems by auto
  have nm: "map_of (map (\<lambda>m. (Path m, Version m)) ms) (Path m) = None"
    using Cons.prems(1) by (auto simp: map_of_eq_None_iff image_iff)
  have "Req_max reqs (m # ms) mx = Req_max reqs ms (mx(Path m \<mapsto> Version m))"
    using none by simp
  also have "\<dots> = (\<lambda>p. case map_of (map (\<lambda>m. (Path m, Version m)) ms) p of
                         Some v \<Rightarrow> Some v | None \<Rightarrow> (mx(Path m \<mapsto> Version m)) p)"
  proof (rule Cons.IH)
    show "distinct (map Path ms)" using Cons.prems(1) by simp
    have "Path m \<notin> Path ` set ms" using Cons.prems(1) by auto
    then show "Path ` set ms \<inter> dom (mx(Path m \<mapsto> Version m)) = {}"
      using Cons.prems(2) by auto
  qed
  also have "\<dots> = (\<lambda>p. case map_of (map (\<lambda>m. (Path m, Version m)) (m # ms)) p of
                         Some v \<Rightarrow> Some v | None \<Rightarrow> mx p)"
    using nm by (auto simp: fun_eq_iff split: option.splits)
  finally show ?case .
qed

lemma Req_base_total:
  assumes fin: "finite U" and cl: "\<forall>m rs. reqCache m = Some rs \<longrightarrow> set rs \<subseteq> U"
  shows "\<forall>p \<in> set base. \<lparr>Path = p, Version = lookup_map mx p\<rparr> \<in> U \<Longrightarrow>
     \<exists>have'. Req_base reqCache mx base (mn, have)
         = Some (mn @ map (\<lambda>p. \<lparr>Path = p, Version = lookup_map mx p\<rparr>) base, have') \<and>
       have \<union> (\<lambda>p. \<lparr>Path = p, Version = lookup_map mx p\<rparr>) ` set base \<subseteq> have'"
proof (induction base arbitrary: mn "have")
  case Nil
  then show ?case by simp
next
  case (Cons p base)
  let ?m = "\<lparr>Path = p, Version = lookup_map mx p\<rparr>"
  from Cons.prems have "set [?m] \<subseteq> U" by simp
  from have_list_total[where reqCache = reqCache and U = U, OF fin cl order_refl this] obtain have1 where
    h1: "have_list reqCache [?m] have = Some have1" "have \<union> set [?m] \<subseteq> have1"
    by blast
  from Cons.prems have "\<forall>p \<in> set base. \<lparr>Path = p, Version = lookup_map mx p\<rparr> \<in> U" by simp
  from Cons.IH[OF this, of "mn @ [?m]" have1] obtain have' where
    h': "Req_base reqCache mx base (mn @ [?m], have1)
         = Some ((mn @ [?m]) @ map (\<lambda>p. \<lparr>Path = p, Version = lookup_map mx p\<rparr>) base, have')"
      "have1 \<union> (\<lambda>p. \<lparr>Path = p, Version = lookup_map mx p\<rparr>) ` set base \<subseteq> have'"
    by blast
  show ?case using h1 h' by (auto simp: Let_def)
qed

lemma Req_rest_skip:
  "\<forall>m \<in> set ms. lookup_map mx (Path m) = Version m \<longrightarrow> m \<in> have \<Longrightarrow>
   Req_rest reqCache mx ms (mn, have) = Some (mn, have)"
  by (induction ms) auto

lemma sort_key_unique:
  fixes f :: "'a \<Rightarrow> 'k :: linorder"
  assumes "distinct (map f xs)" "set xs = set ys" "distinct (map f ys)"
  shows "sort_key f xs = sort_key f ys"
proof -
  have "map f (sort_key f xs) = map f (sort_key f ys)"
  proof (rule sorted_distinct_set_unique)
    show "sorted (map f (sort_key f xs))" "sorted (map f (sort_key f ys))"
      by (rule sorted_sort_key)+
    show "distinct (map f (sort_key f xs))" "distinct (map f (sort_key f ys))"
      using assms by (simp_all add: distinct_map_sort_key)
    show "set (map f (sort_key f xs)) = set (map f (sort_key f ys))"
      using assms(2) by simp
  qed
  moreover have "inj_on f (set (sort_key f xs) \<union> set (sort_key f ys))"
    using assms by (simp add: distinct_map)
  ultimately show ?thesis by (simp add: inj_on_map_eq_map)
qed

text \<open>
  Claim C5, as stated: for every root and provider for which \<open>BuildList\<close> succeeds,
  \<open>Req\<close> with the paths of the build list as \<open>base\<close> returns the same versions. The
  first walk of \<open>Req\<close> (line 258) calls \<open>Required\<close> on every module it meets, also on
  those of version \<open>none\<close>, which \<open>buildList\<close> never asks for (line 118): with a provider
  that fails there, \<open>BuildList\<close> returns a list and \<open>Req\<close> returns the error.
\<close>

theorem Req_round_trip_counterexample:
  "BuildList first_item main_module
     (example_reqs [(main_module, Inr [\<lparr>Path = ''B'', Version = ''1''\<rparr>]),
                    (\<lparr>Path = ''B'', Version = ''1''\<rparr>, Inr [\<lparr>Path = ''C'', Version = ''none''\<rparr>]),
                    (\<lparr>Path = ''C'', Version = ''none''\<rparr>, Inl ''no such version'')] [])
     = Some (Return [main_module, \<lparr>Path = ''B'', Version = ''1''\<rparr>]) \<and>
   Req first_item main_module [''main'', ''B'']
     (example_reqs [(main_module, Inr [\<lparr>Path = ''B'', Version = ''1''\<rparr>]),
                    (\<lparr>Path = ''B'', Version = ''1''\<rparr>, Inr [\<lparr>Path = ''C'', Version = ''none''\<rparr>]),
                    (\<lparr>Path = ''C'', Version = ''none''\<rparr>, Inl ''no such version'')] [])
     = Some (Fail (ProviderError ''no such version''))"
proof -
  have e: "BuildList first_item main_module
     (example_reqs [(main_module, Inr [\<lparr>Path = ''B'', Version = ''1''\<rparr>]),
                    (\<lparr>Path = ''B'', Version = ''1''\<rparr>, Inr [\<lparr>Path = ''C'', Version = ''none''\<rparr>]),
                    (\<lparr>Path = ''C'', Version = ''none''\<rparr>, Inl ''no such version'')] [])
     = Some (Return [main_module, \<lparr>Path = ''B'', Version = ''1''\<rparr>])"
    by (simp add: BuildList_def buildList_def explore_eval finalize_eval example_eval)
  show ?thesis
    unfolding Req_def e
    by (simp add: e walk_list.simps example_eval)
qed

text \<open>
  Claim C5, amended: when \<open>BuildList\<close> returns a list and \<open>Required\<close> answers the empty
  list for the modules of version \<open>none\<close>, then \<open>Req\<close>, with a \<open>base\<close> that lists each
  path of the build list once, returns the build list sorted by path: the same versions,
  the root no longer first. This holds under every scheduler and includes that both walks
  of \<open>Req\<close> end.
\<close>

theorem Req_round_trip:
  assumes bl: "BuildList pick target reqs = Some (Return list)"
      and nn: "\<forall>p. Reqs_Required reqs \<lparr>Path = p, Version = none\<rparr> = Inr []"
      and base: "distinct base" "set base = Path ` set list"
  shows "Req pick target base reqs = Some (Return (sort_key Path list)) \<and>
         set (sort_key Path list) = set list"
proof -
  from BuildList_Return_no_error[OF bl] obtain st where
    st: "explore pick target reqs None = Some st" and fin: "finalize reqs target st = Return list"
    and ne: "\<not> haveErr st"
    by blast
  from explore_invs[OF st] obtain w where inv: "explore_inv target reqs None w st"
    and w: "work_todo w = []" and mi: "min_inv st"
    by (auto simp: explore_invs_def)
  define V where "V = reachable reqs target"
  have domV: "dom (modGraph st) = V" unfolding V_def by (rule explore_reachable[OF st])
  have finV: "finite V" using inv w unfolding domV[symmetric] explore_inv_def work_inv_def by simp
  have cl: "\<forall>m \<in> V. \<exists>rs. Reqs_Required reqs m = Inr rs \<and> set rs \<subseteq> V"
  proof
    fix m assume m: "m \<in> V"
    show "\<exists>rs. Reqs_Required reqs m = Inr rs \<and> set rs \<subseteq> V"
  proof (cases "Version m = none")
    case True
    then have "m = \<lparr>Path = Path m, Version = none\<rparr>" by simp
    with nn have "Reqs_Required reqs m = Inr []" by metis
    then show ?thesis by simp
  next
    case False
    from ne inv m have "node_err (visit_node reqs None m) = None"
      unfolding explore_inv_def domV by auto
    with False obtain rs where rs: "Reqs_Required reqs m = Inr rs"
      by (cases "Reqs_Required reqs m") (auto simp: visit_node_None)
    have "set rs \<subseteq> V" using reachable.step[OF _ False rs] m unfolding V_def by auto
    with rs show ?thesis by blast
  qed
  qed
  let ?al = "filter (\<lambda>e. fst e \<noteq> Path target) (min_map st)"
  note fr = finalize_Return[OF fin]
  have d: "distinct (map fst (min_map st))" using mi by (simp add: min_inv_def)
  have tV: "target \<in> V" unfolding V_def by (rule reachable.root)
  have mem: "\<lparr>Path = p, Version = v\<rparr> \<in> V \<and> v \<noteq> none" if "(p, v) \<in> set (min_map st)" for p v
  proof -
    from that d have "map_of (min_map st) p = Some v" by simp
    with mi show ?thesis unfolding min_inv_def domV by blast
  qed
  have set_list: "set list = insert target (entry ` set ?al)" by (simp add: fr(1))
  have listV: "set list \<subseteq> V" using tV mem unfolding set_list by (auto simp: entry_def)
  have tn: "Version target \<noteq> none" using lookup_str_not_none[OF mi, of "Path target"] fr(2) by simp
  have list_nn: "\<forall>m \<in> set list. Version m \<noteq> none"
    using tn mem unfolding set_list by (auto simp: entry_def)
  have dl: "distinct (map Path list)"
  proof -
    have paths: "map Path (map entry ?al) = map fst ?al" by (simp add: entry_def)
    have "distinct (map fst ?al)" using d by (rule distinct_map_filter)
    then have "distinct (map Path (sort_key Path (map entry ?al)))"
      unfolding distinct_map_sort_key paths .
    moreover have "Path target \<notin> Path ` entry ` set ?al" by (auto simp: entry_def)
    ultimately show ?thesis by (simp add: fr(1))
  qed
  have paths: "Path m \<in> Path ` set list" if "m \<in> V" "Version m \<noteq> none" for m
  proof (cases "Path m = Path target")
    case True
    then show ?thesis unfolding set_list by auto
  next
    case False
    from that mi obtain v where "map_of (min_map st) (Path m) = Some v"
      unfolding min_inv_def domV by blast
    then have "(Path m, v) \<in> set (min_map st)" by (rule map_of_SomeD)
    with False have "(Path m, v) \<in> set ?al" by simp
    then have "entry (Path m, v) \<in> set list" unfolding set_list by blast
    then have "Path (entry (Path m, v)) \<in> Path ` set list" by (rule imageI)
    then show ?thesis by (simp add: entry_def)
  qed
  \<comment> \<open>the first walk\<close>
  have "\<exists>st'. walk_list reqs list ([target \<mapsto> []], []) = Some (Inr st') \<and>
           dom (fst ([target \<mapsto> []], [])) \<subseteq> dom (fst st') \<and>
           set list \<subseteq> dom (fst st') \<and> set (snd st') \<subseteq> V \<and>
           (\<forall>m rs. fst st' m = Some rs \<longrightarrow> set rs \<subseteq> V)"
    using walk_list_total[OF finV cl order_refl listV, of "([target \<mapsto> []], [])"]
    by (simp split: if_splits)
  then obtain reqCache postorder where
    walk: "walk_list reqs list ([target \<mapsto> []], []) = Some (Inr (reqCache, postorder))"
    and poV: "set postorder \<subseteq> V"
    and cacheV: "\<forall>m rs. reqCache m = Some rs \<longrightarrow> set rs \<subseteq> V"
    by fastforce
  \<comment> \<open>the maximum of each path\<close>
  let ?mx = "Req_max reqs list Map.empty"
  let ?mk = "\<lambda>p. \<lparr>Path = p, Version = lookup_map ?mx p\<rparr>"
  have mx: "?mx = map_of (map (\<lambda>m. (Path m, Version m)) list)"
    using Req_max_distinct[OF dl, of Map.empty reqs]
    by (auto simp: fun_eq_iff split: option.splits)
  have dl': "distinct (map fst (map (\<lambda>m. (Path m, Version m)) list))"
    using dl by (simp add: comp_def)
  have mxl: "lookup_map ?mx (Path m) = Version m" if "m \<in> set list" for m
  proof -
    from that have "(Path m, Version m) \<in> set (map (\<lambda>m. (Path m, Version m)) list)" by auto
    with dl' have "?mx (Path m) = Some (Version m)" unfolding mx by simp
    then show ?thesis by (simp add: lookup_map_def)
  qed
  have mxn: "lookup_map ?mx p = []" if "p \<notin> Path ` set list" for p
  proof -
    from that have "?mx p = None" unfolding mx by (auto simp: map_of_eq_None_iff image_iff)
    then show ?thesis by (simp add: lookup_map_def)
  qed
  have mk: "?mk (Path m) = m" if "m \<in> set list" for m using mxl[OF that] by simp
  have mk_set: "?mk ` set base = set list"
  proof -
    have "?mk ` set base = (\<lambda>m. ?mk (Path m)) ` set list" unfolding base(2) by (simp add: image_image)
    also have "\<dots> = (\<lambda>m. m) ` set list" by (rule image_cong) (simp_all add: mk)
    finally show ?thesis by simp
  qed
  \<comment> \<open>the modules of base\<close>
  have "\<forall>p \<in> set base. ?mk p \<in> V" using mk_set listV by auto
  from Req_base_total[where reqCache = reqCache and U = V and mn = "[]" and ?have = "{}", OF finV cacheV this]
  obtain have1 where
    rb: "Req_base reqCache ?mx base ([], {}) = Some (map ?mk base, have1)"
    and h1: "set list \<subseteq> have1"
    unfolding mk_set by auto
  \<comment> \<open>nothing else is added\<close>
  have "\<forall>m \<in> set (rev postorder). lookup_map ?mx (Path m) = Version m \<longrightarrow> m \<in> have1"
  proof (intro ballI impI)
    fix m assume m: "m \<in> set (rev postorder)" and l: "lookup_map ?mx (Path m) = Version m"
    from m poV have mV: "m \<in> V" by auto
    have vn: "Version m \<noteq> none"
    proof (cases "Path m \<in> Path ` set list")
      case True
      then obtain m' where m': "m' \<in> set list" "Path m' = Path m" by auto
      from mxl[OF m'(1)] l m'(2) have "Version m = Version m'" by simp
      with list_nn m'(1) show ?thesis by simp
    next
      case False
      from mxn[OF this] l show ?thesis by (simp add: none_def)
    qed
    from paths[OF mV vn] obtain m' where m': "m' \<in> set list" "Path m' = Path m" by auto
    from mxl[OF m'(1)] l m'(2) have "Version m = Version m'" by simp
    with m'(2) have "m = m'" by simp
    with m'(1) h1 show "m \<in> have1" by auto
  qed
  from Req_rest_skip[OF this] have rr:
    "Req_rest reqCache ?mx (rev postorder) (map ?mk base, have1) = Some (map ?mk base, have1)" .
  have "Req pick target base reqs = Some (Return (sort_key Path (map ?mk base)))"
    unfolding Req_def by (simp add: bl walk rb rr Let_def)
  moreover have "sort_key Path (map ?mk base) = sort_key Path list"
  proof (rule sort_key_unique)
    show "distinct (map Path (map ?mk base))" using base(1) by (simp add: comp_def)
    show "set (map ?mk base) = set list" using mk_set by simp
    show "distinct (map Path list)" by (rule dl)
  qed
  ultimately show ?thesis by simp
qed


theorem Req_round_trip_witness:
  "BuildList first_item main_module
     (example_reqs [(main_module, Inr [\<lparr>Path = ''A'', Version = ''1''\<rparr>, \<lparr>Path = ''B'', Version = ''1''\<rparr>]),
                    (\<lparr>Path = ''A'', Version = ''1''\<rparr>, Inr [\<lparr>Path = ''C'', Version = ''1''\<rparr>]),
                    (\<lparr>Path = ''B'', Version = ''1''\<rparr>, Inr [\<lparr>Path = ''C'', Version = ''2''\<rparr>])] [])
     = Some (Return [main_module, \<lparr>Path = ''A'', Version = ''1''\<rparr>, \<lparr>Path = ''B'', Version = ''1''\<rparr>,
                     \<lparr>Path = ''C'', Version = ''2''\<rparr>]) \<and>
   Req first_item main_module [''main'', ''C'', ''B'', ''A'']
     (example_reqs [(main_module, Inr [\<lparr>Path = ''A'', Version = ''1''\<rparr>, \<lparr>Path = ''B'', Version = ''1''\<rparr>]),
                    (\<lparr>Path = ''A'', Version = ''1''\<rparr>, Inr [\<lparr>Path = ''C'', Version = ''1''\<rparr>]),
                    (\<lparr>Path = ''B'', Version = ''1''\<rparr>, Inr [\<lparr>Path = ''C'', Version = ''2''\<rparr>])] [])
     = Some (Return [\<lparr>Path = ''A'', Version = ''1''\<rparr>, \<lparr>Path = ''B'', Version = ''1''\<rparr>,
                     \<lparr>Path = ''C'', Version = ''2''\<rparr>, main_module])"
proof -
  let ?reqs = "example_reqs [(main_module, Inr [\<lparr>Path = ''A'', Version = ''1''\<rparr>, \<lparr>Path = ''B'', Version = ''1''\<rparr>]),
                    (\<lparr>Path = ''A'', Version = ''1''\<rparr>, Inr [\<lparr>Path = ''C'', Version = ''1''\<rparr>]),
                    (\<lparr>Path = ''B'', Version = ''1''\<rparr>, Inr [\<lparr>Path = ''C'', Version = ''2''\<rparr>])] []"
  have e: "BuildList first_item main_module ?reqs
     = Some (Return [main_module, \<lparr>Path = ''A'', Version = ''1''\<rparr>, \<lparr>Path = ''B'', Version = ''1''\<rparr>,
                     \<lparr>Path = ''C'', Version = ''2''\<rparr>])"
    by (simp add: BuildList_def buildList_def explore_eval finalize_eval example_eval)
  have n: "\<forall>p. Reqs_Required ?reqs \<lparr>Path = p, Version = none\<rparr> = Inr []"
    by (simp add: example_eval)
  have b: "distinct [''main'', ''C'', ''B'', ''A'']"
    "set [''main'', ''C'', ''B'', ''A'']
       = Path ` set [main_module, \<lparr>Path = ''A'', Version = ''1''\<rparr>, \<lparr>Path = ''B'', Version = ''1''\<rparr>,
                     \<lparr>Path = ''C'', Version = ''2''\<rparr>]"
    by (auto simp: main_module_def)
  from Req_round_trip[OF e n b] e show ?thesis
    by (simp add: main_module_def)
qed

section \<open>\<open>buildList\<close>: the path to the error\<close>

subsection \<open>The exploration ends on a finite graph\<close>

lemma Work_Do_total:
  fixes pick :: "'a list \<Rightarrow> nat" and f :: "'a \<Rightarrow> 's \<Rightarrow> 's \<times> 'a list"
    and \<mu> :: "'a Work \<Rightarrow> 's \<Rightarrow> nat"
  assumes init: "I w s"
      and step: "\<And>w s. I w s \<Longrightarrow> work_todo w \<noteq> [] \<Longrightarrow>
         I (fold Work_Add (snd (f (fst (Work_take pick w)) s)) (snd (Work_take pick w)))
           (fst (f (fst (Work_take pick w)) s)) \<and>
         \<mu> (fold Work_Add (snd (f (fst (Work_take pick w)) s)) (snd (Work_take pick w)))
           (fst (f (fst (Work_take pick w)) s)) < \<mu> w s"
  shows "\<exists>s'. Work_Do pick f w s = Some s'"
  using init
proof (induction "\<mu> w s" arbitrary: w s rule: less_induct)
  case less
  show ?case
  proof (cases "work_todo w = []")
    case True
    then show ?thesis by (subst Work_Do_unfold) simp
  next
    case False
    let ?w = "fold Work_Add (snd (f (fst (Work_take pick w)) s)) (snd (Work_take pick w))"
    let ?s = "fst (f (fst (Work_take pick w)) s)"
    from step[OF less.prems False] have "I ?w ?s" "\<mu> ?w ?s < \<mu> w s" by simp_all
    from less.hyps[OF this(2) this(1)] obtain s' where "Work_Do pick f ?w ?s = Some s'" by blast
    then show ?thesis using False by (subst Work_Do_unfold) simp
  qed
qed

lemma explore_total:
  assumes fin: "finite (reachable reqs target)"
  shows "\<exists>st. explore pick target reqs None = Some st"
  unfolding explore_def
proof (rule Work_Do_total[where
      I = "\<lambda>w st. explore_invs target reqs None w st \<and> work_added w \<subseteq> reachable reqs target"
      and \<mu> = "\<lambda>w st. card (reachable reqs target - dom (modGraph st))"])
  show "explore_invs target reqs None (Work_Add target Work_init) init_state \<and>
        work_added (Work_Add target Work_init) \<subseteq> reachable reqs target"
    using explore_invs_init[of target reqs None]
    by (auto simp: Work_Add_def Work_init_def intro: reachable.root)
next
  fix w and s :: "'a graph_state"
  assume I: "explore_invs target reqs None w s \<and> work_added w \<subseteq> reachable reqs target"
    and ne: "work_todo w \<noteq> []"
  let ?m = "fst (Work_take pick w)"
  have ei: "explore_inv target reqs None w s" using I by (simp add: explore_invs_def)
  then have wi: "work_inv w" by (simp add: explore_inv_def)
  note tk = Work_take_facts[OF wi ne, of pick]
  have mr: "?m \<in> reachable reqs target" using tk(1) wi I by (auto simp: work_inv_def)
  then have "set (visit_adds reqs None ?m) \<subseteq> reachable reqs target"
    by (auto intro: visit_adds_reachable)
  with I have "work_added (fold Work_Add (snd (visit reqs None ?m s)) (snd (Work_take pick w)))
        \<subseteq> reachable reqs target"
    by (simp add: visit_eq fold_Work_Add tk(2))
  with explore_invs_step[of target reqs None w s pick] I ne
  have inv': "explore_invs target reqs None
           (fold Work_Add (snd (visit reqs None ?m s)) (snd (Work_take pick w)))
           (fst (visit reqs None ?m s)) \<and>
        work_added (fold Work_Add (snd (visit reqs None ?m s)) (snd (Work_take pick w)))
          \<subseteq> reachable reqs target"
    by simp
  have "?m \<notin> dom (modGraph s)" using ei tk(1) unfolding explore_inv_def by auto
  with mr have "?m \<in> reachable reqs target - dom (modGraph s)" by simp
  moreover have "reachable reqs target - dom (modGraph (fst (visit reqs None ?m s)))
      = (reachable reqs target - dom (modGraph s)) - {?m}"
    by (auto simp: visit_eq)
  moreover have "finite (reachable reqs target - dom (modGraph s))" using fin by simp
  ultimately have "card (reachable reqs target - dom (modGraph (fst (visit reqs None ?m s))))
      < card (reachable reqs target - dom (modGraph s))"
    by (metis card_Diff1_less)
  with inv' show "(explore_invs target reqs None
           (fold Work_Add (snd (visit reqs None ?m s)) (snd (Work_take pick w)))
           (fst (visit reqs None ?m s)) \<and>
        work_added (fold Work_Add (snd (visit reqs None ?m s)) (snd (Work_take pick w)))
          \<subseteq> reachable reqs target) \<and>
      card (reachable reqs target - dom (modGraph (fst (visit reqs None ?m s))))
      < card (reachable reqs target - dom (modGraph s))"
    by simp
qed

subsection \<open>The loop of lines 167 to 172 reverses the path\<close>

lemma reverse_loop_nth:
  "j < length xs \<or> j \<le> i \<Longrightarrow>
   length (reverse_loop i j xs) = length xs \<and>
   (\<forall>k < length xs. reverse_loop i j xs ! k = (if i \<le> k \<and> k \<le> j then xs ! (i + j - k) else xs ! k))"
proof (induction i j xs rule: reverse_loop.induct)
  case (1 i j xs)
  note prems = "1.prems" and IH = "1.IH"
  show ?case
  proof (cases "i < j")
    case False
    then have "reverse_loop i j xs = xs" by simp
    moreover have "i + j - k = k" if "i \<le> k" "k \<le> j" for k using that False by simp
    ultimately show ?thesis by simp
  next
    case True
    let ?xs = "xs[i := xs ! j, j := xs ! i]"
    from True prems have j: "j < length xs" by simp
    have eq: "reverse_loop i j xs = reverse_loop (i + 1) (j - 1) ?xs"
      using True by (subst reverse_loop.simps) simp
    have "j - 1 < length ?xs" using j by (simp add: less_imp_diff_less)
    then have "j - 1 < length ?xs \<or> j - 1 \<le> i + 1" ..
    from IH[OF True this] have
      len: "length (reverse_loop (i + 1) (j - 1) ?xs) = length xs" and
      nth: "\<And>k. k < length xs \<Longrightarrow> reverse_loop (i + 1) (j - 1) ?xs ! k
          = (if i + 1 \<le> k \<and> k \<le> j - 1 then ?xs ! (i + 1 + (j - 1) - k) else ?xs ! k)"
      by simp_all
    show ?thesis
      unfolding eq
    proof (intro conjI allI impI)
      show "length (reverse_loop (i + 1) (j - 1) ?xs) = length xs" by (rule len)
    next
      fix k assume k: "k < length xs"
      show "reverse_loop (i + 1) (j - 1) ?xs ! k = (if i \<le> k \<and> k \<le> j then xs ! (i + j - k) else xs ! k)"
        unfolding nth[OF k] using True j k
        by (auto simp: nth_list_update)
    qed
  qed
qed

lemma reverse_loop_rev: "reverse_loop 0 (length xs - 1) xs = rev xs"
proof (rule nth_equalityI)
  have c: "length xs - 1 < length xs \<or> length xs - 1 \<le> 0" by (cases xs) simp_all
  note r = reverse_loop_nth[OF c]
  show "length (reverse_loop 0 (length xs - 1) xs) = length (rev xs)"
    using r by (simp del: reverse_loop.simps)
  fix k assume "k < length (reverse_loop 0 (length xs - 1) xs)"
  then have k: "k < length xs" using r by (simp del: reverse_loop.simps)
  then have kk: "k \<le> length xs - 1" by arith
  from r k have "reverse_loop 0 (length xs - 1) xs ! k
      = (if 0 \<le> k \<and> k \<le> length xs - 1 then xs ! (0 + (length xs - 1) - k) else xs ! k)"
    by blast
  with kk have "reverse_loop 0 (length xs - 1) xs ! k = xs ! (0 + (length xs - 1) - k)"
    by (simp del: reverse_loop.simps)
  also have "\<dots> = rev xs ! k" using k by (simp add: rev_nth)
  finally show "reverse_loop 0 (length xs - 1) xs ! k = rev xs ! k" .
qed

subsection \<open>The search proceeds by levels\<close>

lemma enqueue_spec:
  assumes "enqueue g node ns (neededBy, q) = (neededBy', q')" and "inj_on g (set ns)"
  shows "neededBy' = (\<lambda>p. if neededBy p = None \<and> p \<in> g ` set ns then Some node else neededBy p)"
    and "\<exists>newk. q' = q @ map g newk \<and> distinct newk \<and> set newk = {x \<in> set ns. neededBy (g x) = None}"
  using assms
proof (induction ns arbitrary: neededBy q)
  case Nil
  { case 1 then show ?case by simp }
  { case 2 then show ?case by simp }
next
  case (Cons x ns)
  {
    case 1
    then have inj: "inj_on g (set ns)" by simp
    show ?case
    proof (cases "neededBy (g x) \<noteq> None")
      case True
      with 1 have "enqueue g node ns (neededBy, q) = (neededBy', q')" by simp
      from Cons.IH(1)[OF this inj] True show ?thesis by (auto simp: fun_eq_iff)
    next
      case False
      with 1 have "enqueue g node ns (neededBy(g x := Some node), q @ [g x]) = (neededBy', q')"
        by (simp add: Let_def)
      from Cons.IH(1)[OF this inj] False show ?thesis by (auto simp: fun_eq_iff)
    qed
  }
  {
    case 2
    then have inj: "inj_on g (set ns)" and x: "\<forall>y \<in> set ns. g y = g x \<longrightarrow> y = x"
      by (auto simp: inj_on_def)
    show ?case
    proof (cases "neededBy (g x) \<noteq> None")
      case True
      with 2 have "enqueue g node ns (neededBy, q) = (neededBy', q')" by simp
      from Cons.IH(2)[OF this inj] obtain newk where
        "q' = q @ map g newk" "distinct newk" "set newk = {x \<in> set ns. neededBy (g x) = None}"
        by blast
      moreover have "{y \<in> set ns. neededBy (g y) = None} = {y \<in> set (x # ns). neededBy (g y) = None}"
        using True by auto
      ultimately show ?thesis by auto
    next
      case False
      with 2 have "enqueue g node ns (neededBy(g x := Some node), q @ [g x]) = (neededBy', q')"
        by (simp add: Let_def)
      from Cons.IH(2)[OF this inj] obtain newk where
        n: "q' = (q @ [g x]) @ map g newk" "distinct newk"
           "set newk = {y \<in> set ns. (neededBy(g x := Some node)) (g y) = None}"
        by blast
      have s: "set newk = {y \<in> set ns. y \<noteq> x \<and> neededBy (g y) = None}"
        unfolding n(3) using x by auto
      have "q' = q @ map g (x # newk)" using n(1) by simp
      moreover have "distinct (x # newk)" using n(2) s by simp
      moreover have "set (x # newk) = {y \<in> set (x # ns). neededBy (g y) = None}"
        using s False by auto
      ultimately show ?thesis by blast
    qed
  }
qed

lemma chain_append_edge:
  "chain succ (xs @ [u]) \<Longrightarrow> m \<in> set (succ u) \<Longrightarrow> chain succ (xs @ [u, m])"
  by (induction succ xs rule: chain.induct) auto

lemma sorted_map_const: "\<forall>x \<in> set xs. f x = c \<Longrightarrow> sorted (map f xs)"
  by (induction xs) auto

lemma sorted_map_hd: "sorted (map f xs) \<Longrightarrow> x \<in> set xs \<Longrightarrow> f (hd xs) \<le> f x"
  by (cases xs) auto

lemma search_graph_inj: "search_graph g target \<Longrightarrow> inj_on g (dom g)"
  unfolding search_graph_def inj_on_def by (metis domD)


lemma errPath_loop_chain:
  assumes sg: "search_graph g target" and inv: "bfs_inv g target neededBy ks lev"
  shows "m \<in> discovered g target neededBy \<Longrightarrow> lev m = k \<Longrightarrow>
     \<exists>c pu. errPath_loop neededBy (neededBy (g m)) prev acc pathUpgrade = Some (acc @ c, pu) \<and>
        length c = k \<and> chain (graph_succ g) (rev c @ [m]) \<and> hd (rev c @ [m]) = target"
proof (induction k arbitrary: m prev acc pathUpgrade)
  case 0
  have "neededBy (g m) = None"
  proof (rule ccontr)
    assume "neededBy (g m) \<noteq> None"
    then obtain p where "neededBy (g m) = Some p" by auto
    moreover have "m \<in> dom g" using 0(1) by (simp add: discovered_def)
    ultimately have "\<exists>u. lev m = Suc (lev u)" using inv unfolding bfs_inv_def by blast
    with 0(2) show False by simp
  qed
  moreover from this 0(1) have "m = target" by (auto simp: discovered_def)
  ultimately show ?case by (subst errPath_loop.simps) simp
next
  case (Suc k)
  have mt: "m \<noteq> target" using Suc.prems(2) inv by (auto simp: bfs_inv_def)
  with Suc.prems(1) have md: "m \<in> dom g" and "neededBy (g m) \<noteq> None"
    by (auto simp: discovered_def)
  then obtain p where p: "neededBy (g m) = Some p" by auto
  with md inv obtain u where u: "u \<in> discovered g target neededBy" "g u = Some p"
      "m \<in> set (neighbors p)" "lev m = Suc (lev u)"
    unfolding bfs_inv_def by blast
  from u(2) sg have nm: "node_m p = u" by (simp add: search_graph_def)
  from u(4) Suc.prems(2) have lu: "lev u = k" by simp
  let ?pu = "if node_upgrade p = node_m prev then pathUpgrade(node_m p \<mapsto> node_m prev) else pathUpgrade"
  from Suc.IH[OF u(1) lu, of p "acc @ [u]" ?pu] obtain c pu where
    c: "errPath_loop neededBy (neededBy (g u)) p (acc @ [u]) ?pu = Some ((acc @ [u]) @ c, pu)"
       "length c = k" "chain (graph_succ g) (rev c @ [u])" "hd (rev c @ [u]) = target"
    by blast
  have e: "errPath_loop neededBy (neededBy (g m)) prev acc pathUpgrade = Some (acc @ (u # c), pu)"
    unfolding p using c(1) by (subst errPath_loop.simps) (simp add: nm u(2))
  have "m \<in> set (graph_succ g u)" using u(2,3) by (simp add: graph_succ_def)
  with c(3) have "chain (graph_succ g) (rev c @ [u, m])" by (rule chain_append_edge)
  moreover have "hd (rev c @ [u, m]) = target" using c(4) by (cases "rev c") simp_all
  ultimately show ?case using e c(2) by (intro exI[of _ "u # c"] exI[of _ pu]) simp
qed

lemma bfs_levels_shortest:
  assumes inv: "bfs_inv g target neededBy ks lev"
  shows "chain (graph_succ g) (x # xs) \<Longrightarrow> x \<in> discovered g target neededBy \<Longrightarrow>
     last (x # xs) \<notin> discovered g target neededBy - set ks \<Longrightarrow>
     ks \<noteq> [] \<and> lev (hd ks) \<le> lev x + length xs"
proof (induction xs arbitrary: x)
  case Nil
  then have "x \<in> set ks" by simp
  moreover have "sorted (map lev ks)" using inv by (simp add: bfs_inv_def)
  ultimately show ?case using sorted_map_hd[of lev ks x] by auto
next
  case (Cons y ys)
  show ?case
  proof (cases "x \<in> set ks")
    case True
    moreover have "sorted (map lev ks)" using inv by (simp add: bfs_inv_def)
    ultimately show ?thesis using sorted_map_hd[of lev ks x] by auto
  next
    case False
    with Cons.prems(2) have xp: "x \<in> discovered g target neededBy - set ks" by simp
    from Cons.prems(1) have y: "y \<in> set (graph_succ g x)" "chain (graph_succ g) (y # ys)" by simp_all
    from xp y(1) inv have yd: "y \<in> discovered g target neededBy" "lev y \<le> Suc (lev x)"
      unfolding bfs_inv_def by blast+
    from Cons.prems(3) have "last (y # ys) \<notin> discovered g target neededBy - set ks" by simp
    from Cons.IH[OF y(2) yd(1) this] yd(2) show ?thesis by simp
  qed
qed

lemma bfs_done_closed:
  assumes inv: "bfs_inv g target neededBy [] lev"
  shows "chain (graph_succ g) (x # xs) \<Longrightarrow> x \<in> discovered g target neededBy \<Longrightarrow>
     last (x # xs) \<in> discovered g target neededBy"
proof (induction xs arbitrary: x)
  case Nil
  then show ?case by simp
next
  case (Cons y ys)
  from Cons.prems(1) have y: "y \<in> set (graph_succ g x)" "chain (graph_succ g) (y # ys)" by simp_all
  from Cons.prems(2) y(1) inv have "y \<in> discovered g target neededBy"
    unfolding bfs_inv_def by simp
  from Cons.IH[OF y(2) this] show ?case by simp
qed


lemma bfs_inv_step:
  assumes sg: "search_graph g target" and inv: "bfs_inv g target neededBy (h # ks) lev"
      and gh: "g h = Some node" and ne: "node_err node = None"
      and en: "enqueue g node (neighbors node) (neededBy, map g ks) = (neededBy', q')"
  shows "\<exists>ks' lev'. q' = map g ks' \<and> bfs_inv g target neededBy' ks' lev' \<and>
        2 * card (dom g - discovered g target neededBy') + length ks'
          < 2 * card (dom g - discovered g target neededBy) + length (h # ks)"
proof -
  let ?D = "discovered g target neededBy" and ?ns = "neighbors node"
  define N where "N = {x \<in> set ?ns. neededBy (g x) = None}"
  have fin: "finite (dom g)" and cl: "closed_graph g" and tdom: "target \<in> dom g"
    using sg by (simp_all add: search_graph_def)
  have nsdom: "set ?ns \<subseteq> dom g" using cl gh unfolding closed_graph_def by blast
  have inj: "inj_on g (dom g)" using sg by (rule search_graph_inj)
  have inj_ns: "inj_on g (set ?ns)" using inj nsdom by (rule inj_on_subset)
  have tns: "target \<notin> set ?ns" using sg gh unfolding search_graph_def by blast
  from enqueue_spec[OF en inj_ns] obtain newk where
    nb': "neededBy' = (\<lambda>p. if neededBy p = None \<and> p \<in> g ` set ?ns then Some node else neededBy p)"
    and q': "q' = map g ks @ map g newk" and dn: "distinct newk" and sn: "set newk = N"
    unfolding N_def by blast
  have img: "g m \<in> g ` set ?ns \<longleftrightarrow> m \<in> set ?ns" if "m \<in> dom g" for m
    using inj that nsdom by (rule inj_on_image_mem_iff)
  have nbN: "neededBy' (g m) = Some node" if "m \<in> N" for m
    using that unfolding nb' N_def by auto
  have nbD: "neededBy' (g m) = neededBy (g m)" if "m \<in> dom g" "m \<notin> N" for m
    using that img[OF that(1)] unfolding nb' N_def by auto
  have Ndom: "N \<subseteq> dom g" using nsdom by (auto simp: N_def)
  have ND: "N \<inter> ?D = {}" using tns by (auto simp: N_def discovered_def)
  have D': "discovered g target neededBy' = ?D \<union> N"
  proof (intro equalityI subsetI)
    fix m assume m: "m \<in> discovered g target neededBy'"
    then have md: "m \<in> dom g" by (simp add: discovered_def)
    show "m \<in> ?D \<union> N"
    proof (cases "m \<in> N")
      case False
      with m nbD[OF md] show ?thesis by (simp add: discovered_def)
    qed simp
  next
    fix m assume "m \<in> ?D \<union> N"
    then show "m \<in> discovered g target neededBy'"
    proof
      assume m: "m \<in> ?D"
      then have md: "m \<in> dom g" "m \<notin> N" using ND by (auto simp: discovered_def)
      with m nbD[OF md] show ?thesis by (simp add: discovered_def)
    next
      assume "m \<in> N"
      with nbN Ndom show ?thesis by (auto simp: discovered_def)
    qed
  qed
  have hD: "h \<in> ?D" and ksD: "set ks \<subseteq> ?D" using inv by (simp_all add: bfs_inv_def)
  have I3: "neededBy (g target) = None" "lev target = 0" using inv by (simp_all add: bfs_inv_def)
  have I4: "\<exists>u \<in> ?D. g u = Some p \<and> m \<in> set (neighbors p) \<and> lev m = Suc (lev u)"
    if "m \<in> dom g" "neededBy (g m) = Some p" for m p
    using inv that unfolding bfs_inv_def by blast
  have I6: "node_err (the (g u)) = None \<and> (\<forall>x \<in> set (graph_succ g u). x \<in> ?D \<and> lev x \<le> Suc (lev u))"
    if "u \<in> ?D - set (h # ks)" for u
    using inv that unfolding bfs_inv_def by blast
  have I7a: "sorted (map lev (h # ks))" using inv unfolding bfs_inv_def by blast
  have "\<forall>m \<in> set (h # ks). lev m \<le> Suc (lev (hd (h # ks)))"
    using inv unfolding bfs_inv_def by blast
  then have I7b: "lev m \<le> Suc (lev h)" if "m \<in> set (h # ks)" for m using that by auto
  have I7c: "lev u \<le> lev m" if "u \<in> ?D - set (h # ks)" "m \<in> set (h # ks)" for u m
    using inv that unfolding bfs_inv_def by blast
  define lev' where "lev' = (\<lambda>m. if m \<in> N then Suc (lev h) else lev m)"
  have levD: "lev' m = lev m" if "m \<in> ?D" for m using that ND by (auto simp: lev'_def)
  have levN: "lev' m = Suc (lev h)" if "m \<in> N" for m using that by (simp add: lev'_def)
  have hks: "lev h \<le> lev m" if "m \<in> set ks" for m using I7a that by auto
  have le_all: "lev' m \<le> Suc (lev h)" if "m \<in> set (ks @ newk)" for m
  proof (cases "m \<in> N")
    case True
    then show ?thesis by (simp add: levN)
  next
    case False
    with that sn have mk: "m \<in> set ks" by auto
    then have "m \<in> ?D" "lev m \<le> Suc (lev h)" using ksD I7b[of m] by auto
    with levD[of m] show ?thesis by simp
  qed
  have ge_all: "lev h \<le> lev' m" if "m \<in> set (ks @ newk)" for m
  proof (cases "m \<in> N")
    case True
    then show ?thesis by (simp add: levN)
  next
    case False
    with that sn have mk: "m \<in> set ks" by auto
    then have "m \<in> ?D" "lev h \<le> lev m" using ksD hks[of m] by auto
    with levD[of m] show ?thesis by simp
  qed
  have inv': "bfs_inv g target neededBy' (ks @ newk) lev'"
    unfolding bfs_inv_def D'
  proof (intro conjI ballI allI impI)
    show "set (ks @ newk) \<subseteq> ?D \<union> N" using ksD sn by auto
    show "neededBy' (g target) = None"
      using I3(1) img[OF tdom] tns by (simp add: nb')
    show "lev' target = 0" using I3(2) tns by (simp add: lev'_def N_def)
  next
    fix m p assume md: "m \<in> dom g" and p: "neededBy' (g m) = Some p"
    show "\<exists>u \<in> ?D \<union> N. g u = Some p \<and> m \<in> set (neighbors p) \<and> lev' m = Suc (lev' u)"
    proof (cases "m \<in> N")
      case True
      with p nbN have "p = node" by simp
      moreover have "m \<in> set ?ns" using True by (simp add: N_def)
      ultimately show ?thesis using hD gh levN[OF True] levD[OF hD] by auto
    next
      case False
      with p nbD[OF md] have p': "neededBy (g m) = Some p" by simp
      with md have mD: "m \<in> ?D" by (simp add: discovered_def)
      from I4[OF md p'] obtain u where u: "u \<in> ?D" "g u = Some p" "m \<in> set (neighbors p)"
          "lev m = Suc (lev u)" by blast
      with levD[OF mD] levD[OF u(1)] show ?thesis by auto
    qed
  next
    fix u assume u: "u \<in> ?D \<union> N - set (ks @ newk)"
    then have uD: "u \<in> ?D" "u \<notin> set ks" using sn by auto
    show "node_err (the (g u)) = None"
    proof (cases "u = h")
      case True
      with gh ne show ?thesis by simp
    next
      case False
      with uD have "u \<in> ?D - set (h # ks)" by simp
      from I6[OF this] show ?thesis by blast
    qed
  next
    fix u x assume u: "u \<in> ?D \<union> N - set (ks @ newk)" and x: "x \<in> set (graph_succ g u)"
    then have uD: "u \<in> ?D" "u \<notin> set ks" using sn by auto
    show "x \<in> ?D \<union> N"
    proof (cases "u = h")
      case True
      with x gh have xn: "x \<in> set ?ns" by (simp add: graph_succ_def)
      with nsdom have "x \<in> dom g" by auto
      with xn show ?thesis by (auto simp: N_def discovered_def)
    next
      case False
      with uD have "u \<in> ?D - set (h # ks)" by simp
      from I6[OF this] x show ?thesis by blast
    qed
  next
    fix u x assume u: "u \<in> ?D \<union> N - set (ks @ newk)" and x: "x \<in> set (graph_succ g u)"
    then have uD: "u \<in> ?D" "u \<notin> set ks" using sn by auto
    show "lev' x \<le> Suc (lev' u)"
    proof (cases "u = h")
      case True
      with x gh have xn: "x \<in> set ?ns" by (simp add: graph_succ_def)
      with nsdom have xd: "x \<in> dom g" by auto
      show ?thesis
      proof (cases "x \<in> N")
        case xN: True
        then show ?thesis using True levN levD[OF hD] by simp
      next
        case xN: False
        with xn xd have xD: "x \<in> ?D" by (auto simp: N_def discovered_def)
        have "lev x \<le> Suc (lev h)"
        proof (cases "x \<in> set (h # ks)")
          case True
          then show ?thesis by (rule I7b)
        next
          case False
          with xD have "x \<in> ?D - set (h # ks)" by simp
          from I7c[OF this, of h] show ?thesis by simp
        qed
        with True levD[OF xD] levD[OF hD] show ?thesis by simp
      qed
    next
      case False
      with uD have u': "u \<in> ?D - set (h # ks)" by simp
      from I6[OF u'] x have xD: "x \<in> ?D" and "lev x \<le> Suc (lev u)" by blast+
      with levD[OF xD] levD[OF uD(1)] show ?thesis by simp
    qed
  next
    have eq: "map lev' ks = map lev ks" using ksD levD by (intro map_cong) auto
    have "sorted (map lev ks)" using I7a by simp
    then have "sorted (map lev' ks)" unfolding eq .
    moreover have "sorted (map lev' newk)"
      by (rule sorted_map_const[where c = "Suc (lev h)"]) (simp add: sn levN)
    moreover have "\<forall>a \<in> set ks. \<forall>b \<in> set newk. lev' a \<le> lev' b"
      using le_all sn levN by auto
    ultimately show "sorted (map lev' (ks @ newk))" by (auto simp: sorted_append)
  next
    fix m assume m: "m \<in> set (ks @ newk)"
    then have "ks @ newk \<noteq> []" by auto
    then have "hd (ks @ newk) \<in> set (ks @ newk)" by (rule hd_in_set)
    from ge_all[OF this] le_all[OF m] show "lev' m \<le> Suc (lev' (hd (ks @ newk)))" by simp
  next
    fix u m assume u: "u \<in> ?D \<union> N - set (ks @ newk)" and m: "m \<in> set (ks @ newk)"
    then have uD: "u \<in> ?D" "u \<notin> set ks" using sn by auto
    have "lev u \<le> lev h"
    proof (cases "u = h")
      case False
      with uD have "u \<in> ?D - set (h # ks)" by simp
      from I7c[OF this, of h] show ?thesis by simp
    qed simp
    with ge_all[OF m] levD[OF uD(1)] show "lev' u \<le> lev' m" by simp
  qed
  have "dom g - (?D \<union> N) = (dom g - ?D) - N" by auto
  moreover have NS: "N \<subseteq> dom g - ?D" using Ndom ND by auto
  moreover have fN: "finite N" using Ndom fin by (rule finite_subset)
  ultimately have c: "card (dom g - (?D \<union> N)) = card (dom g - ?D) - card N"
    by (simp add: card_Diff_subset)
  have "card N \<le> card (dom g - ?D)" using NS fin by (intro card_mono) auto
  moreover have "length newk = card N" using dn sn by (metis distinct_card)
  ultimately have "2 * card (dom g - (?D \<union> N)) + length (ks @ newk)
      < 2 * card (dom g - ?D) + length (h # ks)"
    unfolding c by simp
  with inv' q' show ?thesis unfolding D'[symmetric]
    by (intro exI[of _ "ks @ newk"] exI[of _ lev']) (simp add: D')
qed


lemma reverse_loop_Cons: "reverse_loop 0 (length c) (h # c) = rev c @ [h]"
  using reverse_loop_rev[of "h # c"] by (simp del: reverse_loop.simps)

lemma find_error_total:
  assumes sg: "search_graph g target"
      and conn: "\<forall>m \<in> dom g. \<exists>xs. chain (graph_succ g) (target # xs) \<and> last (target # xs) = m"
      and err: "\<exists>m n. g m = Some n \<and> node_err n \<noteq> None"
  shows "bfs_inv g target neededBy ks lev \<Longrightarrow>
     \<exists>e path f. find_error g neededBy (map g ks) = Some (Some (Fail (BuildListError e path f))) \<and>
        path \<noteq> [] \<and> hd path = target \<and> chain (graph_succ g) path \<and>
        (\<exists>n. g (last path) = Some n \<and> node_err n = Some e) \<and>
        (\<forall>xs n. chain (graph_succ g) (target # xs) \<longrightarrow> g (last (target # xs)) = Some n \<longrightarrow>
           node_err n \<noteq> None \<longrightarrow> length path \<le> Suc (length xs))"
proof (induction "2 * card (dom g - discovered g target neededBy) + length ks"
    arbitrary: neededBy ks lev rule: less_induct)
  case less
  note inv = less.prems
  have tD: "target \<in> discovered g target neededBy"
    using sg by (simp add: discovered_def search_graph_def)
  show ?case
  proof (cases ks)
    case Nil
    from err obtain m n where m: "g m = Some n" "node_err n \<noteq> None" by blast
    then have "m \<in> dom g" by auto
    with conn obtain xs where xs: "chain (graph_succ g) (target # xs)" "last (target # xs) = m"
      by blast
    from bfs_done_closed[OF inv[unfolded Nil] xs(1) tD] xs(2)
    have "m \<in> discovered g target neededBy" by simp
    with inv Nil have "node_err (the (g m)) = None" unfolding bfs_inv_def by simp
    with m show ?thesis by simp
  next
    case (Cons h ks')
    from inv Cons have hD: "h \<in> discovered g target neededBy" by (simp add: bfs_inv_def)
    then obtain node where gh: "g h = Some node" by (auto simp: discovered_def)
    have nm: "node_m node = h" using sg gh by (simp add: search_graph_def)
    show ?thesis
    proof (cases "node_err node")
      case (Some e)
      from errPath_loop_chain[OF sg inv hD refl, of node "[h]" Map.empty] obtain c pu where
        c: "errPath_loop neededBy (neededBy (g h)) node [h] Map.empty = Some ([h] @ c, pu)"
           "length c = lev h" "chain (graph_succ g) (rev c @ [h])" "hd (rev c @ [h]) = target"
        by blast
      let ?path = "rev c @ [h]"
      have fe: "find_error g neededBy (map g ks)
          = Some (Some (Fail (BuildListError e ?path (isUpgrade pu))))"
        unfolding Cons using gh Some c(1) nm
        by (subst find_error.simps)
           (simp add: NewBuildListError_def reverse_loop_Cons del: reverse_loop.simps)
      have short: "length ?path \<le> Suc (length xs)"
        if ch: "chain (graph_succ g) (target # xs)" and n: "g (last (target # xs)) = Some n"
          "node_err n \<noteq> None" for xs n
      proof -
        have "last (target # xs) \<notin> discovered g target neededBy - set ks"
        proof
          assume "last (target # xs) \<in> discovered g target neededBy - set ks"
          with inv have "node_err (the (g (last (target # xs)))) = None"
            unfolding bfs_inv_def by blast
          with n show False by simp
        qed
        from bfs_levels_shortest[OF inv ch tD this] have "lev (hd ks) \<le> lev target + length xs"
          by simp
        moreover have "lev target = 0" using inv by (simp add: bfs_inv_def)
        ultimately show ?thesis using c(2) Cons by simp
      qed
      have "g (last ?path) = Some node \<and> node_err node = Some e" using gh Some by simp
      with fe c(3,4) short show ?thesis by (intro exI[of _ e] exI[of _ ?path] exI[of _ "isUpgrade pu"]) blast
    next
      case None
      obtain nb' q' where en: "enqueue g node (neighbors node) (neededBy, map g ks') = (nb', q')"
        by (cases "enqueue g node (neighbors node) (neededBy, map g ks')")
      from bfs_inv_step[OF sg inv[unfolded Cons] gh None en] obtain ks'' lev' where
        s: "q' = map g ks''" "bfs_inv g target nb' ks'' lev'"
           "2 * card (dom g - discovered g target nb') + length ks''
              < 2 * card (dom g - discovered g target neededBy) + length (h # ks')"
        by blast
      have fe: "find_error g neededBy (map g ks) = find_error g nb' (map g ks'')"
        unfolding Cons using gh None en s(1) by (subst find_error.simps) simp
      from s(3) Cons have "2 * card (dom g - discovered g target nb') + length ks''
              < 2 * card (dom g - discovered g target neededBy) + length ks" by simp
      from less.hyps[OF this s(2)] show ?thesis unfolding fe .
    qed
  qed
qed

subsection \<open>The error that \<open>BuildList\<close> reports\<close>

lemma chain_mono:
  "\<forall>m. set (s1 m) \<subseteq> set (s2 m) \<Longrightarrow> chain s1 p \<Longrightarrow> chain s2 p"
  by (induction s1 p rule: chain.induct) auto

lemma chain_snoc:
  assumes "chain succ (x # xs)" "r \<in> set (succ (last (x # xs)))"
  shows "chain succ (x # xs @ [r])"
proof -
  have "x # xs = butlast (x # xs) @ [last (x # xs)]" by (rule append_butlast_last_id[symmetric]) simp
  then have "chain succ (butlast (x # xs) @ [last (x # xs)])" using assms(1) by simp
  from chain_append_edge[OF this assms(2)]
  have "chain succ ((butlast (x # xs) @ [last (x # xs)]) @ [r])" by simp
  then show ?thesis by (simp del: butlast.simps last.simps add: append_butlast_last_id)
qed

text \<open>
  When the modules reached from the root are finitely many, none of them requires the root
  itself, and \<open>Required\<close> fails on one of them, then under every scheduler the
  exploration ends having visited all of them, and \<open>BuildList\<close> returns a build-list
  error: its path starts at the root, each module of it is required by the one before, it
  ends at a module on which \<open>Required\<close> fails, with the error reported, and no chain of
  requirements from the root to a failing module is shorter.
\<close>

lemma BuildList_error_path:
  assumes fin: "finite (reachable reqs target)"
    and noroot: "\<forall>u \<in> reachable reqs target. target \<notin> set (visit_adds reqs None u)"
    and err: "\<exists>u \<in> reachable reqs target. Version u \<noteq> none \<and> (\<exists>e. Reqs_Required reqs u = Inl e)"
  shows "\<exists>st e path f. explore pick target reqs None = Some st \<and>
       dom (modGraph st) = reachable reqs target \<and>
       BuildList pick target reqs = Some (Fail (BuildListError e path f)) \<and>
       path \<noteq> [] \<and> hd path = target \<and> chain (visit_adds reqs None) path \<and>
       Version (last path) \<noteq> none \<and> Reqs_Required reqs (last path) = Inl e \<and>
       (\<forall>xs e'. chain (visit_adds reqs None) (target # xs) \<longrightarrow>
           Version (last (target # xs)) \<noteq> none \<longrightarrow>
           Reqs_Required reqs (last (target # xs)) = Inl e' \<longrightarrow> length path \<le> Suc (length xs))"
proof -
  from explore_total[OF fin] obtain st where st: "explore pick target reqs None = Some st" by blast
  from explore_invs[OF st] obtain w where inv: "explore_inv target reqs None w st"
    and w: "work_todo w = []"
    by (auto simp: explore_invs_def)
  let ?g = "modGraph st"
  have dom: "dom ?g = reachable reqs target" by (rule explore_reachable[OF st])
  have gm: "?g m = Some (visit_node reqs None m)" if "m \<in> reachable reqs target" for m
    using inv that unfolding explore_inv_def dom by blast
  have nb: "neighbors (visit_node reqs None m) = visit_adds reqs None m" for m
    by (simp add: visit_node_None neighbors_def zero_version_def)
  have gs: "graph_succ ?g m = visit_adds reqs None m" if "m \<in> reachable reqs target" for m
    using gm[OF that] by (simp add: graph_succ_def nb)
  have gs_sub: "\<forall>m. set (graph_succ ?g m) \<subseteq> set (visit_adds reqs None m)"
  proof
    fix m
    show "set (graph_succ ?g m) \<subseteq> set (visit_adds reqs None m)"
    proof (cases "m \<in> reachable reqs target")
      case True
      then show ?thesis by (simp add: gs)
    next
      case False
      then have "?g m = None" using dom by auto
      then show ?thesis by (simp add: graph_succ_def)
    qed
  qed
  have tr: "target \<in> reachable reqs target" by (rule reachable.root)
  have sg: "search_graph ?g target"
    unfolding search_graph_def
  proof (intro conjI allI impI)
    show "finite (dom ?g)" using fin dom by simp
    show "closed_graph ?g" by (rule explore_closed_graph(1)[OF inv w])
    show "target \<in> dom ?g" using dom tr by simp
  next
    fix m n assume n: "?g m = Some n"
    then have m: "m \<in> reachable reqs target" using dom by auto
    with n gm have n': "n = visit_node reqs None m" by simp
    show "node_m n = m" by (simp add: n')
    show "target \<notin> set (neighbors n)" using noroot m by (simp add: n' nb)
  qed
  have conn: "\<forall>m \<in> dom ?g. \<exists>xs. chain (graph_succ ?g) (target # xs) \<and> last (target # xs) = m"
  proof
    fix m assume "m \<in> dom ?g"
    then have "m \<in> reachable reqs target" using dom by simp
    then show "\<exists>xs. chain (graph_succ ?g) (target # xs) \<and> last (target # xs) = m"
    proof (induction rule: reachable.induct)
      case root
      have "chain (graph_succ ?g) (target # []) \<and> last (target # []) = target" by simp
      then show ?case by blast
    next
      case (step u rs r)
      from step.IH obtain xs where xs: "chain (graph_succ ?g) (target # xs)" "last (target # xs) = u"
        by blast
      have "r \<in> set (visit_adds reqs None u)" using step.hyps by (simp add: visit_adds_None)
      then have "r \<in> set (graph_succ ?g (last (target # xs)))" using gs[OF step.hyps(1)] xs(2) by simp
      from chain_snoc[OF xs(1) this] have "chain (graph_succ ?g) (target # (xs @ [r]))" by simp
      moreover have "last (target # (xs @ [r])) = r" by simp
      ultimately show ?case by blast
    qed
  qed
  from err obtain u e0 where u: "u \<in> reachable reqs target" "Version u \<noteq> none"
      "Reqs_Required reqs u = Inl e0" by blast
  then have ue: "node_err (visit_node reqs None u) \<noteq> None" by (simp add: visit_node_None)
  then have gerr: "\<exists>m n. ?g m = Some n \<and> node_err n \<noteq> None" using gm[OF u(1)] by blast
  have he: "haveErr st" using inv ue u(1) unfolding explore_inv_def dom by blast
  have "target \<in> dom ?g" using dom tr by simp
  then have inv0: "bfs_inv ?g target (\<lambda>_. None) [target] (\<lambda>_. 0)"
    by (auto simp: bfs_inv_def discovered_def)
  from find_error_total[OF sg conn gerr inv0] obtain e path f where
    fe: "find_error ?g (\<lambda>_. None) (map ?g [target]) = Some (Some (Fail (BuildListError e path f)))"
    and p: "path \<noteq> []" "hd path = target" "chain (graph_succ ?g) path"
    and l: "\<exists>n. ?g (last path) = Some n \<and> node_err n = Some e"
    and short: "\<forall>xs n. chain (graph_succ ?g) (target # xs) \<longrightarrow> ?g (last (target # xs)) = Some n \<longrightarrow>
           node_err n \<noteq> None \<longrightarrow> length path \<le> Suc (length xs)"
    by blast
  have bl: "BuildList pick target reqs = Some (Fail (BuildListError e path f))"
    using fe he by (simp add: BuildList_def buildList_def st)
  have ch: "chain (visit_adds reqs None) path" using gs_sub p(3) by (rule chain_mono)
  from l obtain n where n: "?g (last path) = Some n" "node_err n = Some e" by blast
  then have "last path \<in> reachable reqs target" using dom by auto
  with n gm have "node_err (visit_node reqs None (last path)) = Some e" by simp
  then have last: "Version (last path) \<noteq> none" "Reqs_Required reqs (last path) = Inl e"
    by (auto simp: visit_node_None split: if_splits sum.splits)
  have into: "chain (graph_succ ?g) (x # xs) \<and> last (x # xs) \<in> reachable reqs target"
    if "chain (visit_adds reqs None) (x # xs)" "x \<in> reachable reqs target" for x xs
    using that
  proof (induction xs arbitrary: x)
    case Nil
    then show ?case by simp
  next
    case (Cons y ys)
    from Cons.prems(1) have y: "y \<in> set (visit_adds reqs None x)"
        "chain (visit_adds reqs None) (y # ys)" by simp_all
    from visit_adds_reachable[OF Cons.prems(2) y(1)] have yr: "y \<in> reachable reqs target" .
    from Cons.IH[OF y(2) yr] y(1) gs[OF Cons.prems(2)] show ?case by simp
  qed
  have "length path \<le> Suc (length xs)"
    if c: "chain (visit_adds reqs None) (target # xs)" and v: "Version (last (target # xs)) \<noteq> none"
      and r: "Reqs_Required reqs (last (target # xs)) = Inl e'" for xs e'
  proof -
    from into[OF c tr] have c': "chain (graph_succ ?g) (target # xs)"
      and lr: "last (target # xs) \<in> reachable reqs target" by simp_all
    have "node_err (visit_node reqs None (last (target # xs))) \<noteq> None"
      using v r by (simp add: visit_node_None)
    with short c' gm[OF lr] show ?thesis by blast
  qed
  with st dom bl p(1,2) ch last show ?thesis by blast
qed

text \<open>
  The scenario of an error two requirements away from the root: the root requires \<open>A@1\<close>,
  which requires \<open>B@1\<close>, on which \<open>Required\<close> fails with \<open>E\<close>. Under every scheduler
  \<open>BuildList\<close> returns the error \<open>E\<close> with the path from the root to \<open>B@1\<close>.
\<close>

lemma BuildList_error_path_scenario:
  assumes r0: "Reqs_Required reqs target = Inr [\<lparr>Path = ''A'', Version = ''1''\<rparr>]"
      and r1: "Reqs_Required reqs \<lparr>Path = ''A'', Version = ''1''\<rparr> = Inr [\<lparr>Path = ''B'', Version = ''1''\<rparr>]"
      and r2: "Reqs_Required reqs \<lparr>Path = ''B'', Version = ''1''\<rparr> = Inl E"
      and t: "Path target \<noteq> ''A''" "Path target \<noteq> ''B''" "Version target \<noteq> ''none''"
  shows "\<exists>f. BuildList pick target reqs = Some (Fail (BuildListError E
     [target, \<lparr>Path = ''A'', Version = ''1''\<rparr>, \<lparr>Path = ''B'', Version = ''1''\<rparr>] f))"
proof -
  have ne: "\<lparr>Path = ''A'', Version = ''1''\<rparr> \<noteq> target" "\<lparr>Path = ''B'', Version = ''1''\<rparr> \<noteq> target"
      "target \<noteq> \<lparr>Path = ''A'', Version = ''1''\<rparr>" "target \<noteq> \<lparr>Path = ''B'', Version = ''1''\<rparr>"
    using t by auto
  obtain st where st: "explore pick target reqs None = Some st"
     "st = \<lparr>modGraph =
           [target \<mapsto>
            \<lparr>node_m = target,
               node_required = [\<lparr>Path = ''A'', Version = ''1''\<rparr>],
               node_upgrade = \<lparr>Path = [], Version = []\<rparr>, node_err = None\<rparr>,
            \<lparr>Path = ''A'', Version = ''1''\<rparr> \<mapsto>
            \<lparr>node_m = \<lparr>Path = ''A'', Version = ''1''\<rparr>,
               node_required = [\<lparr>Path = ''B'', Version = ''1''\<rparr>],
               node_upgrade = \<lparr>Path = [], Version = []\<rparr>, node_err = None\<rparr>,
            \<lparr>Path = ''B'', Version = ''1''\<rparr> \<mapsto>
            \<lparr>node_m = \<lparr>Path = ''B'', Version = ''1''\<rparr>, node_required = [],
               node_upgrade = \<lparr>Path = [], Version = []\<rparr>, node_err = Some E\<rparr>],
           min_map =
             [(Path target, Version target), (''A'', ''1''), (''B'', ''1'')],
           haveErr = True\<rparr>"
    using ne t r0 r1 r2 by (simp add: explore_eval)
  show ?thesis
    unfolding BuildList_def buildList_def st(1)
    using ne by (simp add: st(2) find_error_eval)
qed

subsection \<open>A requirement on the root\<close>

text \<open>
  The loop of line 161 follows \<open>neededBy\<close> until it reads nil. It never ends from a node
  whose parent has that node as its own parent.
\<close>

lemma errPath_loop_cycle:
  assumes ne: "neededBy (Some a) \<noteq> None" and cyc: "neededBy (neededBy (Some a)) = Some a"
  shows "errPath_loop neededBy (Some a) prev errPath pathUpgrade = None"
proof (cases "errPath_loop neededBy (Some a) prev errPath pathUpgrade")
  case None
  then show ?thesis .
next
  case (Some y)
  have "nb = neededBy \<longrightarrow> (n = Some a \<or> n = neededBy (Some a)) \<longrightarrow> False"
    if "errPath_loop nb n prev errPath pathUpgrade = Some y" for nb n
    using that
  proof (rule errPath_loop.raw_induct[where P = "\<lambda>nb n prev errPath pathUpgrade y.
      nb = neededBy \<longrightarrow> (n = Some a \<or> n = neededBy (Some a)) \<longrightarrow> False", rotated], goal_cases)
    case (1 el nb n prev errPath pathUpgrade y)
    note IH = 1(1) and body = 1(2)
    show ?case
    proof (intro impI)
      assume nb: "nb = neededBy" and n: "n = Some a \<or> n = neededBy (Some a)"
      from ne obtain b where b: "neededBy (Some a) = Some b" by auto
      from n b obtain nd where nd: "n = Some nd" "nd = a \<or> nd = b" by auto
      from body nd(1) obtain errPath' pathUpgrade' where
        "el nb (nb (Some nd)) nd errPath' pathUpgrade' = Some y" by simp
      from IH[OF this] nb have "\<not> (neededBy (Some nd) = Some a \<or> neededBy (Some nd) = neededBy (Some a))"
        by blast
      with nd(2) b cyc show False by auto
    qed
  qed
  from this[OF Some] show ?thesis by simp
qed

text \<open>
  Claim C3: a failure of \<open>Required\<close> does not stop the exploration, and \<open>buildList\<close>
  then returns an error whose path is the shortest chain of \<open>neededBy\<close> from the root to
  the failing module. The search of line 150 takes a node as seen when it has a parent in
  \<open>neededBy\<close> (line 187), and the root starts without one: when a module reached from the
  root requires the root itself, the root is given a parent and queued again, the parents
  form a cycle, and the loop of line 161 never reads nil. For the root \<open>R@1\<close> that
  requires \<open>A@1\<close>, which requires \<open>R@1\<close> and \<open>B@1\<close>, with \<open>Required\<close> failing on
  \<open>B@1\<close>, \<open>BuildList\<close> does not return, under any scheduler.
\<close>

theorem BuildList_root_cycle:
  "BuildList pick \<lparr>Path = ''R'', Version = ''1''\<rparr>
     (example_reqs [(\<lparr>Path = ''R'', Version = ''1''\<rparr>, Inr [\<lparr>Path = ''A'', Version = ''1''\<rparr>]),
                    (\<lparr>Path = ''A'', Version = ''1''\<rparr>,
                       Inr [\<lparr>Path = ''R'', Version = ''1''\<rparr>, \<lparr>Path = ''B'', Version = ''1''\<rparr>]),
                    (\<lparr>Path = ''B'', Version = ''1''\<rparr>, Inl ''E'')] [])
     = None"
proof -
  let ?R = "\<lparr>Path = ''R'', Version = ''1''\<rparr>" and ?A = "\<lparr>Path = ''A'', Version = ''1''\<rparr>"
  let ?B = "\<lparr>Path = ''B'', Version = ''1''\<rparr>"
  let ?reqs = "example_reqs [(?R, Inr [?A]), (?A, Inr [?R, ?B]), (?B, Inl ''E'')] []"
  obtain st where st: "explore pick ?R ?reqs None = Some st"
     "st = \<lparr>modGraph =
           [?R \<mapsto> \<lparr>node_m = ?R, node_required = [?A],
               node_upgrade = \<lparr>Path = [], Version = []\<rparr>, node_err = None\<rparr>,
            ?A \<mapsto> \<lparr>node_m = ?A, node_required = [?R, ?B],
               node_upgrade = \<lparr>Path = [], Version = []\<rparr>, node_err = None\<rparr>,
            ?B \<mapsto> \<lparr>node_m = ?B, node_required = [],
               node_upgrade = \<lparr>Path = [], Version = []\<rparr>, node_err = Some ''E''\<rparr>],
           min_map = [(''R'', ''1''), (''A'', ''1''), (''B'', ''1'')],
           haveErr = True\<rparr>"
    by (simp add: explore_eval example_eval)
  show ?thesis
    unfolding BuildList_def buildList_def st(1)
    by (simp add: st(2) find_error.simps neighbors_def zero_version_def Let_def errPath_loop_cycle)
qed

end
